theory Spec2Isabelle
  imports Main "HOL-Library.Multiset"
begin

section \<open>Card and deck model (utils/types, utils/gameUtils)\<close>

datatype Suit = CLUBS | SPADES | HEARTS | DIAMONDS

datatype Rank = SEVEN | EIGHT | NINE | TEN | JACK | QUEEN | KING | ACE

text \<open>
  The interface \<open>Card\<close>. The field \<open>value\<close> of the source is called \<open>cvalue\<close> here.
  The fields \<open>cvalue\<close> and \<open>isTrump\<close> are stored in the card, as in the source: every
  function below reads the stored field and does not recompute it.
\<close>

record Card =
  suit :: Suit
  rank :: Rank
  cvalue :: int
  isTrump :: bool

text \<open>
  \<open>Omit<Player, 'cards' | 'score' | 'isDealer' | 'tricksWon'>\<close>, the roster entry that
  \<open>START_GAME\<close> receives, and the interface \<open>Player\<close> that extends it. The field
  \<open>id\<close> is called \<open>pid\<close>. The optional flag \<open>isPicker\<close> is only ever tested for
  truthiness, so an absent flag is \<open>False\<close>.
\<close>

record PlayerBase =
  pid :: string
  name :: string
  avatar :: "string option"
  isPicker :: bool
  partner :: "string option"
  isHuman :: bool

record Player = PlayerBase +
  cards :: "Card list"
  score :: int
  isDealer :: bool
  tricksWon :: "Card list list"

datatype GamePhase = DEALING | PICKING | BURYING | CALLING_PARTNER | PLAYING | SCORING | GAME_OVER

text \<open>The payload \<open>data?: any\<close> of a log event, one constructor per shape the reducer writes.\<close>

datatype EventData =
  DataGameId string
  | DataLeaster bool
  | DataCards "Card list"
  | DataPartner string
  | DataCard Card
  | DataTrick int
  | DataRound int int int bool
  | DataFinalScores "(string \<times> int) list"

record GameEvent =
  evType :: string
  playerId :: string
  timestamp :: int
  evData :: "EventData option"

record GameState =
  gameId :: string
  players :: "Player list"
  currentTurn :: string
  phase :: GamePhase
  deck :: "Card list"
  buried :: "Card list"
  currentTrick :: "Card list"
  leadSuit :: "Suit option"
  roundNumber :: int
  trickNumber :: int
  isLeaster :: bool
  isDoubler :: bool
  isReDoubler :: bool
  calledAce :: "Card option"
  log :: "GameEvent list"

text \<open>
  Reading a property of \<open>undefined\<close> throws a \<open>TypeError\<close>; it is the only exception
  the modelled code can raise. \<open>NotAState\<close> is no exception: it stands for the one result
  of the reducer that is no \<open>GameState\<close>, the object in which \<open>PLAY_CARD\<close> has appended
  \<open>undefined\<close> to \<open>currentTrick\<close> (declared \<open>Card[]\<close>). The model does not follow the
  game beyond it.
\<close>

datatype error = TypeError | NotAState

subsection \<open>JavaScript array and number primitives\<close>

text \<open>\<open>Array.prototype.findIndex\<close>: the first index whose element satisfies the predicate,
  or \<open>-1\<close>.\<close>

primrec findIndex :: "('a \<Rightarrow> bool) \<Rightarrow> 'a list \<Rightarrow> int" where
  "findIndex P [] = - 1"
| "findIndex P (x # xs) =
     (if P x then 0 else (let r = findIndex P xs in if r = - 1 then - 1 else r + 1))"

text \<open>\<open>xs[i]\<close> for a number \<open>i\<close>: \<open>None\<close> is \<open>undefined\<close>. The index \<open>None\<close> is \<open>NaN\<close>.\<close>

definition at :: "'a list \<Rightarrow> int \<Rightarrow> 'a option" where
  "at xs i = (if 0 \<le> i \<and> i < int (length xs) then Some (xs ! nat i) else None)"

definition atIdx :: "'a list \<Rightarrow> int option \<Rightarrow> 'a option" where
  "atIdx xs io = (case io of None \<Rightarrow> None | Some i \<Rightarrow> at xs i)"

text \<open>\<open>a % n\<close> on integers: \<open>NaN\<close> for \<open>n = 0\<close>, otherwise the remainder with the sign of
  the dividend.\<close>

definition jsRem :: "int \<Rightarrow> int \<Rightarrow> int option" where
  "jsRem a n = (if n = 0 then None else Some (sgn a * (\<bar>a\<bar> mod \<bar>n\<bar>)))"

subsection \<open>Deck construction\<close>

definition isCardTrump :: "Rank \<Rightarrow> Suit \<Rightarrow> bool" where
  "isCardTrump r s = (r = QUEEN \<or> r = JACK \<or> s = DIAMONDS)"

fun getCardValue :: "Rank \<Rightarrow> Suit \<Rightarrow> int" where
  "getCardValue ACE s = 11"
| "getCardValue TEN s = 10"
| "getCardValue KING s = 4"
| "getCardValue QUEEN s = 3"
| "getCardValue JACK s = 2"
| "getCardValue r s = 0"

definition allSuits :: "Suit list" where
  "allSuits = [CLUBS, SPADES, HEARTS, DIAMONDS]"

definition allRanks :: "Rank list" where
  "allRanks = [SEVEN, EIGHT, NINE, TEN, JACK, QUEEN, KING, ACE]"

definition mkCard :: "Suit \<Rightarrow> Rank \<Rightarrow> Card" where
  "mkCard s r = \<lparr>suit = s, rank = r, cvalue = getCardValue r s, isTrump = isCardTrump r s\<rparr>"

text \<open>The two nested \<open>forEach\<close> loops of \<open>initializeDeck\<close>, before the shuffle.\<close>

definition buildDeck :: "Card list" where
  "buildDeck = concat (map (\<lambda>s. map (\<lambda>r. mkCard s r) allRanks) allSuits)"

text \<open>
  \<open>shuffle\<close> (Fisher-Yates). The random source is a parameter: \<open>rnd i\<close> stands for the draw
  made at loop index \<open>i\<close>, and \<open>Math.floor(Math.random() * (i + 1))\<close> is
  \<open>rnd i mod (i + 1)\<close>, a number between \<open>0\<close> and \<open>i\<close>.
\<close>

definition swap :: "nat \<Rightarrow> nat \<Rightarrow> 'a list \<Rightarrow> 'a list" where
  "swap i j xs = xs[i := xs ! j, j := xs ! i]"

fun shuffleLoop :: "(nat \<Rightarrow> nat) \<Rightarrow> nat \<Rightarrow> 'a list \<Rightarrow> 'a list" where
  "shuffleLoop rnd 0 xs = xs"
| "shuffleLoop rnd (Suc i) xs = shuffleLoop rnd i (swap (Suc i) (rnd (Suc i) mod (Suc i + 1)) xs)"

definition shuffle :: "(nat \<Rightarrow> nat) \<Rightarrow> 'a list \<Rightarrow> 'a list" where
  "shuffle rnd xs = shuffleLoop rnd (length xs - 1) xs"

definition initializeDeck :: "(nat \<Rightarrow> nat) \<Rightarrow> Card list" where
  "initializeDeck rnd = shuffle rnd buildDeck"

section \<open>Rule engine (utils/gameUtils)\<close>

definition getCardPower :: "Card \<Rightarrow> int" where
  "getCardPower crd =
     (if isTrump crd then
        (if rank crd = QUEEN then
           (case suit crd of CLUBS \<Rightarrow> 31 | SPADES \<Rightarrow> 30 | HEARTS \<Rightarrow> 29 | DIAMONDS \<Rightarrow> 28)
         else if rank crd = JACK then
           (case suit crd of CLUBS \<Rightarrow> 27 | SPADES \<Rightarrow> 26 | HEARTS \<Rightarrow> 25 | DIAMONDS \<Rightarrow> 24)
         else if suit crd = DIAMONDS then
           (case rank crd of ACE \<Rightarrow> 23 | TEN \<Rightarrow> 22 | KING \<Rightarrow> 21 | NINE \<Rightarrow> 20
            | EIGHT \<Rightarrow> 19 | SEVEN \<Rightarrow> 18 | _ \<Rightarrow> 0)
         else 0)
      else
        (case rank crd of ACE \<Rightarrow> 7 | TEN \<Rightarrow> 6 | KING \<Rightarrow> 5 | NINE \<Rightarrow> 2
         | EIGHT \<Rightarrow> 1 | SEVEN \<Rightarrow> 0 | _ \<Rightarrow> 0))"

text \<open>The loop of \<open>determineTrickWinner\<close> over \<open>trick[1..]\<close>: the state is the pair
  \<open>(winningCard, winningIndex)\<close>, \<open>i\<close> is the index of the card at the head.\<close>

fun trickLoop :: "Suit \<Rightarrow> Card list \<Rightarrow> int \<Rightarrow> Card \<times> int \<Rightarrow> Card \<times> int" where
  "trickLoop ls [] i w = w"
| "trickLoop ls (crd # rest) i (winningCard, winningIndex) =
     trickLoop ls rest (i + 1)
       (if isTrump crd \<and> \<not> isTrump winningCard then (crd, i)
        else if isTrump crd \<and> isTrump winningCard
                \<and> getCardPower crd > getCardPower winningCard then (crd, i)
        else if \<not> isTrump crd \<and> \<not> isTrump winningCard \<and> suit crd = ls
                \<and> getCardPower crd > getCardPower winningCard then (crd, i)
        else (winningCard, winningIndex))"

definition determineTrickWinner :: "Card list \<Rightarrow> Suit \<Rightarrow> Player list \<Rightarrow> error + string" where
  "determineTrickWinner trick ls ps =
     (case trick of
        [] \<Rightarrow> Inr []
      | c0 # rest \<Rightarrow>
          (let (winningCard, winningIndex) = trickLoop ls rest 1 (c0, 0) in
           case at ps winningIndex of
             None \<Rightarrow> Inl TypeError
           | Some pw \<Rightarrow>
               (let startPlayerIndex = findIndex (\<lambda>p. pid p = pid pw) ps;
                    winnerIndex = jsRem (startPlayerIndex + winningIndex) (int (length ps))
                in case atIdx ps winnerIndex of
                     None \<Rightarrow> Inl TypeError
                   | Some w \<Rightarrow> Inr (pid w))))"

definition calculatePoints :: "Card list \<Rightarrow> int" where
  "calculatePoints cs = foldl (\<lambda>total crd. total + cvalue crd) 0 cs"

text \<open>The two guarded rejections of \<open>isValidPlay\<close>, in the order of the source.\<close>

definition followSuitRejects :: "Card \<Rightarrow> Player \<Rightarrow> Suit option \<Rightarrow> bool" where
  "followSuitRejects crd player ls =
     (case ls of
        None \<Rightarrow> False
      | Some l \<Rightarrow>
          \<not> isTrump crd
          \<and> (let hasSuit = list_ex (\<lambda>c. \<not> isTrump c \<and> suit c = l) (cards player)
             in hasSuit \<and> suit crd \<noteq> l))"

definition forcedTrumpRejects :: "Card \<Rightarrow> Player \<Rightarrow> Card list \<Rightarrow> Suit option \<Rightarrow> bool" where
  "forcedTrumpRejects crd player trick ls =
     (case trick of
        [] \<Rightarrow> False
      | t0 # _ \<Rightarrow>
          ls \<noteq> None \<and> isTrump t0 \<and> \<not> isTrump crd
          \<and> (let hasTrump = list_ex (\<lambda>c. isTrump c) (cards player) in hasTrump))"

definition isValidPlay :: "Card \<Rightarrow> Player \<Rightarrow> Card list \<Rightarrow> Suit option \<Rightarrow> bool" where
  "isValidPlay crd player trick ls =
     (if length trick = 0 then True
      else if followSuitRejects crd player ls then False
      else if forcedTrumpRejects crd player trick ls then False
      else True)"

text \<open>\<open>calculateGameScore\<close>. \<open>pickerPartner\<close> is the expression
  \<open>players.find(p => p.isPicker)?.partner\<close>; comparing a player id with \<open>undefined\<close>
  is false.\<close>

record GameScore =
  pickerTeamScore :: int
  defenderTeamScore :: int
  isPicKerTeamWinner :: bool
  pointsWon :: int

definition pickerPartner :: "Player list \<Rightarrow> string option" where
  "pickerPartner ps = (case List.find isPicker ps of None \<Rightarrow> None | Some pk \<Rightarrow> partner pk)"

definition identifyTeams :: "Player list \<Rightarrow> Player list \<times> Player list" where
  "identifyTeams ps =
     foldl (\<lambda>(pickerTeam, defenderTeam) player.
              if isPicker player \<or> Some (pid player) = pickerPartner ps
              then (pickerTeam @ [player], defenderTeam)
              else (pickerTeam, defenderTeam @ [player]))
           ([], []) ps"

definition sumTricks :: "Player list \<Rightarrow> int" where
  "sumTricks team =
     foldl (\<lambda>acc player. foldl (\<lambda>acc trick. acc + calculatePoints trick) acc (tricksWon player))
           0 team"

definition calculateGameScore :: "GameState \<Rightarrow> GameScore" where
  "calculateGameScore gs =
     (let (pickerTeam, defenderTeam) = identifyTeams (players gs);
          pickerScore0 = sumTricks pickerTeam;
          defenderScore = sumTricks defenderTeam;
          pickerScore = (if length (buried gs) > 0
                         then pickerScore0 + calculatePoints (buried gs) else pickerScore0);
          win = (pickerScore \<ge> 61)
      in \<lparr>pickerTeamScore = pickerScore, defenderTeamScore = defenderScore,
          isPicKerTeamWinner = win,
          pointsWon = (if win then pickerScore else defenderScore)\<rparr>)"

subsection \<open>Dealing\<close>

text \<open>
  \<open>dealCards\<close> mutates the deck (\<open>shift\<close>) and the players' hands (\<open>push\<close>); the state of
  its loops is the pair of both. \<open>players\<close> and \<open>updatedPlayers\<close> hold the same objects, so
  one list stands for both. Inside the inner loop the player count is positive and the
  dividend of \<open>%\<close> is not negative, so the index is in range.
\<close>

definition pushCard :: "nat \<Rightarrow> Card \<Rightarrow> Player list \<Rightarrow> Player list" where
  "pushCard i c ps = ps[i := (ps ! i)\<lparr>cards := cards (ps ! i) @ [c]\<rparr>]"

definition dealStep :: "Player list \<times> Card list \<Rightarrow> nat \<Rightarrow> Player list \<times> Card list" where
  "dealStep st p =
     (case st of (ps, dk) \<Rightarrow>
        (let playerIndex = nat ((findIndex isDealer ps + 1 + int p) mod int (length ps))
         in case dk of
              [] \<Rightarrow> (ps, dk)
            | c # rest \<Rightarrow> (pushCard playerIndex c ps, rest)))"

definition dealCards :: "Card list \<Rightarrow> Player list \<Rightarrow> Player list \<times> Card list" where
  "dealCards dk ps =
     (let numPlayers = length ps;
          cardsPerPlayer = (if numPlayers = 5 then 6 else 10)
      in foldl (\<lambda>st i. foldl dealStep st [0..<numPlayers]) (ps, dk) [0..<cardsPerPlayer])"

section \<open>Game state machine (contexts/GameContext)\<close>

text \<open>
  The actions. The card of \<open>PLAY_CARD\<close> is declared \<open>Card\<close>, but the turn handler of the
  computer players dispatches the result of \<open>chooseCardToPlay\<close>, which is \<open>undefined\<close> when
  the hand is empty (\<open>validPlays.sort(...)[0]\<close> of an empty list); so the card is optional
  here, \<open>None\<close> being \<open>undefined\<close>.
\<close>

datatype ActionType =
  START_GAME "PlayerBase list"
  | PICK_BLIND string
  | PASS_BLIND string
  | BURY_CARDS string "Card list"
  | CALL_PARTNER string string
  | PLAY_CARD string "Card option"
  | NEXT_PLAYER
  | END_TRICK
  | END_ROUND
  | END_GAME
  | RESET_GAME
  | LOAD_GAME GameState

text \<open>
  What the reducer reads from outside: the identifier \<open>uuidv4()\<close> returns, the random draws
  of the shuffle, and the clock. \<open>Date.now()\<close> is \<open>envClock\<close> at the number of events
  logged so far, so that two readings within one dispatch may differ. \<open>saveGameState\<close>
  catches its own exceptions and does not touch the state, so it is left out.
\<close>

record Env =
  envUuid :: string
  envRnd :: "nat \<Rightarrow> nat"
  envClock :: "nat \<Rightarrow> int"

definition mkEvent :: "Env \<Rightarrow> GameState \<Rightarrow> string \<Rightarrow> string \<Rightarrow> EventData option \<Rightarrow> GameEvent" where
  "mkEvent env s ty pl d =
     \<lparr>evType = ty, playerId = pl, timestamp = envClock env (length (log s)), evData = d\<rparr>"

definition initialState :: GameState where
  "initialState =
     \<lparr>gameId = [], players = [], currentTurn = [], phase = GAME_OVER, deck = [], buried = [],
      currentTrick = [], leadSuit = None, roundNumber = 0, trickNumber = 0, isLeaster = False,
      isDoubler = False, isReDoubler = False, calledAce = None, log = []\<rparr>"

text \<open>\<open>xs.map((x, idx) => f)\<close>.\<close>

definition mapIdx :: "(nat \<Rightarrow> 'a \<Rightarrow> 'b) \<Rightarrow> 'a list \<Rightarrow> 'b list" where
  "mapIdx f xs = map (\<lambda>(idx, x). f idx x) (enumerate 0 xs)"

definition initPlayers :: "PlayerBase list \<Rightarrow> Player list" where
  "initPlayers bs =
     mapIdx (\<lambda>index player.
        \<lparr>pid = pid player, name = name player, avatar = avatar player,
         isPicker = isPicker player, partner = partner player, isHuman = isHuman player,
         cards = [], score = 0, isDealer = (index = 0), tricksWon = []\<rparr>) bs"

definition startGame :: "Env \<Rightarrow> GameState \<Rightarrow> PlayerBase list \<Rightarrow> error + GameState" where
  "startGame env s bs =
     (let gid = envUuid env;
          dk = initializeDeck (envRnd env);
          initializedPlayers = initPlayers bs;
          (ps, blind) = dealCards dk initializedPlayers;
          startingPlayerIndex = jsRem (findIndex isDealer ps + 1) (int (length ps))
      in case atIdx ps startingPlayerIndex of
           None \<Rightarrow> Inl TypeError
         | Some sp \<Rightarrow>
             Inr (s\<lparr>gameId := gid, players := ps, currentTurn := pid sp, phase := PICKING,
                    deck := blind, buried := [], currentTrick := [], roundNumber := 1,
                    trickNumber := 0, isLeaster := False, isDoubler := False,
                    isReDoubler := False,
                    log := [mkEvent env s ''GAME_STARTED'' [] (Some (DataGameId gid))]\<rparr>))"

definition pickBlind :: "Env \<Rightarrow> GameState \<Rightarrow> string \<Rightarrow> error + GameState" where
  "pickBlind env s playerId' =
     (let playerIndex = findIndex (\<lambda>p. pid p = playerId') (players s)
      in if playerIndex = - 1 \<or> phase s \<noteq> PICKING then Inr s
         else
           (let updatedPlayers =
                  mapIdx (\<lambda>idx player.
                            if int idx = playerIndex
                            then player\<lparr>isPicker := True, cards := cards player @ deck s\<rparr>
                            else player) (players s)
            in Inr (s\<lparr>players := updatedPlayers, deck := [], phase := BURYING,
                      log := log s @ [mkEvent env s ''PICKED_BLIND'' playerId' None]\<rparr>)))"

definition passBlind :: "Env \<Rightarrow> GameState \<Rightarrow> string \<Rightarrow> error + GameState" where
  "passBlind env s playerId' =
     (if phase s \<noteq> PICKING then Inr s
      else
        (let currentPlayerIndex = findIndex (\<lambda>p. pid p = playerId') (players s);
             nextPlayerIndex = jsRem (currentPlayerIndex + 1) (int (length (players s)));
             nextPlayer = atIdx (players s) nextPlayerIndex;
             isLastPlayer = (nextPlayerIndex = Some (findIndex isDealer (players s)))
         in if isLastPlayer then
              (case nextPlayer of
                 None \<Rightarrow> Inl TypeError
               | Some np \<Rightarrow>
                   Inr (s\<lparr>currentTurn := pid np, phase := PLAYING, isLeaster := True,
                          log := log s @ [mkEvent env s ''ALL_PASSED'' playerId'
                                            (Some (DataLeaster True))]\<rparr>))
            else
              (case nextPlayer of
                 None \<Rightarrow> Inl TypeError
               | Some np \<Rightarrow>
                   Inr (s\<lparr>currentTurn := pid np,
                          log := log s @ [mkEvent env s ''PASSED_BLIND'' playerId' None]\<rparr>))))"

definition buryCards :: "Env \<Rightarrow> GameState \<Rightarrow> string \<Rightarrow> Card list \<Rightarrow> error + GameState" where
  "buryCards env s playerId' cds =
     (if phase s \<noteq> BURYING \<or> length cds \<noteq> 2 then Inr s
      else
        (let pickerIndex = findIndex (\<lambda>p. pid p = playerId' \<and> isPicker p) (players s)
         in if pickerIndex = - 1 then Inr s
            else
              (case at (players s) pickerIndex of
                 None \<Rightarrow> Inl TypeError
               | Some pk \<Rightarrow>
                   (let pickerCards = cards pk;
                        remainingCards =
                          filter (\<lambda>crd. \<not> list_ex (\<lambda>c. suit c = suit crd \<and> rank c = rank crd) cds)
                                 pickerCards;
                        updatedPlayers =
                          mapIdx (\<lambda>idx player.
                                    if int idx = pickerIndex
                                    then player\<lparr>cards := remainingCards\<rparr> else player)
                                 (players s);
                        shouldCallPartner = (length updatedPlayers = 5)
                    in Inr (s\<lparr>players := updatedPlayers, buried := cds,
                              phase := (if shouldCallPartner then CALLING_PARTNER else PLAYING),
                              log := log s @ [mkEvent env s ''BURIED_CARDS'' playerId'
                                                (Some (DataCards cds))]\<rparr>)))))"

definition callPartner :: "Env \<Rightarrow> GameState \<Rightarrow> string \<Rightarrow> string \<Rightarrow> error + GameState" where
  "callPartner env s playerId' partnerId =
     (if phase s \<noteq> CALLING_PARTNER then Inr s
      else
        (let pickerIndex = findIndex isPicker (players s)
         in if pickerIndex = - 1 then Inr s
            else
              (case at (players s) pickerIndex of
                 None \<Rightarrow> Inl TypeError
               | Some pk \<Rightarrow>
                   if pid pk \<noteq> playerId' then Inr s
                   else
                     (let updatedPlayers =
                            mapIdx (\<lambda>idx player.
                                      if int idx = pickerIndex
                                      then player\<lparr>partner := Some partnerId\<rparr> else player)
                                   (players s)
                      in Inr (s\<lparr>players := updatedPlayers, phase := PLAYING,
                                log := log s @ [mkEvent env s ''CALLED_PARTNER'' playerId'
                                                  (Some (DataPartner partnerId))]\<rparr>)))))"

text \<open>The leaster branch of \<open>END_ROUND\<close>: the \<open>forEach\<close> over the players with the state
  \<open>(maxPoints, leasterWinnerId)\<close>.\<close>

definition playerPoints :: "Player \<Rightarrow> int" where
  "playerPoints p = foldl (\<lambda>total trick. total + calculatePoints trick) 0 (tricksWon p)"

definition leasterWinner :: "Player list \<Rightarrow> int \<times> string" where
  "leasterWinner ps =
     foldl (\<lambda>(maxPoints, leasterWinnerId) p.
              if playerPoints p > maxPoints then (playerPoints p, pid p)
              else (maxPoints, leasterWinnerId))
           (0, []) ps"

text \<open>The function mapped over the players in \<open>END_ROUND\<close> (\<open>updatedPlayers\<close>).\<close>

definition scorePlayer :: "GameState \<Rightarrow> Player \<Rightarrow> Player" where
  "scorePlayer s player =
     (let sc = calculateGameScore s;
          picker = List.find isPicker (players s)
      in if \<not> isLeaster s \<and> picker \<noteq> None then
           (case picker of
              None \<Rightarrow> player
            | Some pk \<Rightarrow>
                (let isPickerTeam = (isPicker player \<or> Some (pid player) = partner pk)
                 in if (isPickerTeam \<and> isPicKerTeamWinner sc)
                       \<or> (\<not> isPickerTeam \<and> \<not> isPicKerTeamWinner sc)
                    then player\<lparr>score := score player
                                   + (if isPickerTeam then pickerTeamScore sc
                                      else defenderTeamScore sc)\<rparr>
                    else player))
         else if isLeaster s then
           (let (maxPoints, leasterWinnerId) = leasterWinner (players s)
            in if pid player = leasterWinnerId
               then player\<lparr>score := score player + maxPoints\<rparr>
               else player)
         else player)"

definition endRound :: "Env \<Rightarrow> GameState \<Rightarrow> error + GameState" where
  "endRound env s =
     (let sc = calculateGameScore s;
          updatedPlayers = map (scorePlayer s) (players s);
          newDealerIndex = jsRem (findIndex isDealer (players s) + 1) (int (length (players s)));
          rotatedPlayers =
            mapIdx (\<lambda>idx player.
                      player\<lparr>isDealer := (Some (int idx) = newDealerIndex), isPicker := False,
                             partner := None, cards := [], tricksWon := []\<rparr>)
                   updatedPlayers;
          newRoundNumber = roundNumber s + 1
      in case atIdx rotatedPlayers newDealerIndex of
           None \<Rightarrow> Inl TypeError
         | Some d \<Rightarrow>
             Inr (s\<lparr>players := rotatedPlayers, currentTurn := pid d, phase := SCORING,
                    roundNumber := newRoundNumber, trickNumber := 0, isLeaster := False,
                    log := log s @ [mkEvent env s ''ROUND_COMPLETED'' []
                                      (Some (DataRound (roundNumber s) (pickerTeamScore sc)
                                               (defenderTeamScore sc)
                                               (isPicKerTeamWinner sc)))]\<rparr>))"

definition endTrick :: "Env \<Rightarrow> GameState \<Rightarrow> error + GameState" where
  "endTrick env s =
     (if length (currentTrick s) \<noteq> length (players s) then Inr s
      else
        (case determineTrickWinner (currentTrick s)
                (case leadSuit s of None \<Rightarrow> CLUBS | Some l \<Rightarrow> l) (players s) of
           Inl e \<Rightarrow> Inl e
         | Inr winnerId \<Rightarrow>
             (let updatedPlayers =
                    map (\<lambda>player. if pid player = winnerId
                                  then player\<lparr>tricksWon := tricksWon player @ [currentTrick s]\<rparr>
                                  else player) (players s);
                  newTrickNumber = trickNumber s + 1
              in case at updatedPlayers 0 of
                   None \<Rightarrow> Inl TypeError
                 | Some p0 \<Rightarrow>
                     (let isHandComplete = (length (cards p0) = 0);
                          newState =
                            s\<lparr>players := updatedPlayers, currentTrick := [], leadSuit := None,
                              currentTurn := winnerId, trickNumber := newTrickNumber,
                              log := log s @ [mkEvent env s ''TRICK_COMPLETED'' winnerId
                                                (Some (DataTrick (trickNumber s + 1)))]\<rparr>
                      in if isHandComplete then endRound env newState else Inr newState))))"

text \<open>
  \<open>PLAY_CARD\<close>. With a card, the case runs as written. With \<open>undefined\<close> for the card,
  every read of a property of the card throws, in this order:
  \<^item> \<open>isValidPlay\<close> returns \<open>true\<close> for an empty trick without looking at the card; for a
    trick in progress it reads \<open>card.isTrump\<close> if the lead suit is set, and returns \<open>true\<close>
    without looking at the card if it is not;
  \<^item> the filter over the actor's hand reads \<open>card.suit\<close> at the first card of the hand, if
    there is one;
  \<^item> for an empty trick, the new lead suit reads \<open>card.isTrump\<close>;
  \<^item> otherwise \<open>undefined\<close> is appended to the trick; if that completes the trick,
    \<open>END_TRICK\<close> runs and the loop of \<open>determineTrickWinner\<close> reads \<open>isTrump\<close> of that last
    entry; if not, the object returned holds \<open>undefined\<close> in its trick.
\<close>

definition playCard :: "Env \<Rightarrow> GameState \<Rightarrow> string \<Rightarrow> Card option \<Rightarrow> error + GameState" where
  "playCard env s playerId' cardOpt =
     (if phase s \<noteq> PLAYING \<or> currentTurn s \<noteq> playerId' then Inr s
      else
        (let playerIndex = findIndex (\<lambda>p. pid p = playerId') (players s)
         in if playerIndex = - 1 then Inr s
            else
              (case at (players s) playerIndex of
                 None \<Rightarrow> Inl TypeError
               | Some player \<Rightarrow>
                   (case cardOpt of
                      None \<Rightarrow>
                        if length (currentTrick s) = 0 then Inl TypeError
                        else if leadSuit s \<noteq> None then Inl TypeError
                        else if cards player \<noteq> [] then Inl TypeError
                        else
                          (case atIdx (players s)
                                  (jsRem (playerIndex + 1) (int (length (players s)))) of
                             None \<Rightarrow> Inl TypeError
                           | Some np \<Rightarrow>
                               if length (currentTrick s) + 1 = length (players s)
                               then Inl TypeError else Inl NotAState)
                    | Some crd \<Rightarrow>
                   if \<not> isValidPlay crd player (currentTrick s) (leadSuit s) then Inr s
                   else
                     (let updatedPlayers =
                            mapIdx (\<lambda>idx p.
                                      if int idx = playerIndex
                                      then p\<lparr>cards := filter (\<lambda>c. \<not> (suit c = suit crd
                                                                      \<and> rank c = rank crd))
                                                              (cards p)\<rparr>
                                      else p) (players s);
                          updatedTrick = currentTrick s @ [crd];
                          updatedLeadSuit =
                            (if length (currentTrick s) = 0 \<and> \<not> isTrump crd
                             then Some (suit crd) else leadSuit s);
                          nextPlayerIndex = jsRem (playerIndex + 1) (int (length (players s)))
                      in case atIdx (players s) nextPlayerIndex of
                           None \<Rightarrow> Inl TypeError
                         | Some np \<Rightarrow>
                             (let newState =
                                    s\<lparr>players := updatedPlayers, currentTrick := updatedTrick,
                                      currentTurn := pid np, leadSuit := updatedLeadSuit,
                                      log := log s @ [mkEvent env s ''PLAYED_CARD'' playerId'
                                                        (Some (DataCard crd))]\<rparr>
                              in if length updatedTrick = length (players s)
                                 then endTrick env newState else Inr newState))))))"

definition nextPlayerAction :: "GameState \<Rightarrow> error + GameState" where
  "nextPlayerAction s =
     (let currentPlayerIndex = findIndex (\<lambda>p. pid p = currentTurn s) (players s)
      in if currentPlayerIndex = - 1 then Inr s
         else
           (let nextPlayerIndex = jsRem (currentPlayerIndex + 1) (int (length (players s)))
            in case atIdx (players s) nextPlayerIndex of
                 None \<Rightarrow> Inl TypeError
               | Some np \<Rightarrow> Inr (s\<lparr>currentTurn := pid np\<rparr>)))"

definition endGame :: "Env \<Rightarrow> GameState \<Rightarrow> error + GameState" where
  "endGame env s =
     Inr (s\<lparr>phase := GAME_OVER,
            log := log s @ [mkEvent env s ''GAME_ENDED'' []
                              (Some (DataFinalScores (map (\<lambda>p. (pid p, score p)) (players s))))]\<rparr>)"

text \<open>The reducer. The recursive dispatches of \<open>END_TRICK\<close> from \<open>PLAY_CARD\<close> and of
  \<open>END_ROUND\<close> from \<open>END_TRICK\<close> are the calls of \<open>endTrick\<close> and \<open>endRound\<close> above.\<close>

definition gameReducer :: "Env \<Rightarrow> GameState \<Rightarrow> ActionType \<Rightarrow> error + GameState" where
  "gameReducer env s action =
     (case action of
        START_GAME bs \<Rightarrow> startGame env s bs
      | PICK_BLIND p \<Rightarrow> pickBlind env s p
      | PASS_BLIND p \<Rightarrow> passBlind env s p
      | BURY_CARDS p cds \<Rightarrow> buryCards env s p cds
      | CALL_PARTNER p q \<Rightarrow> callPartner env s p q
      | PLAY_CARD p cardOpt \<Rightarrow> playCard env s p cardOpt
      | NEXT_PLAYER \<Rightarrow> nextPlayerAction s
      | END_TRICK \<Rightarrow> endTrick env s
      | END_ROUND \<Rightarrow> endRound env s
      | END_GAME \<Rightarrow> endGame env s
      | RESET_GAME \<Rightarrow> Inr initialState
      | LOAD_GAME gs \<Rightarrow> Inr gs)"

section \<open>Setup screen (the page component)\<close>

text \<open>\<open>handleStartGame\<close> builds the roster: one human player and \<open>playerCount - 1\<close> computer
  players; \<open>digitsOf\<close> is the decimal rendering of the template literal.\<close>

fun digitsOf :: "nat \<Rightarrow> string" where
  "digitsOf n =
     (if n < 10 then [char_of (48 + n)]
      else digitsOf (n div 10) @ [char_of (48 + n mod 10)])"

declare digitsOf.simps [simp del]

definition handleStartGame :: "string \<Rightarrow> nat \<Rightarrow> PlayerBase list" where
  "handleStartGame playerName playerCount =
     \<lparr>pid = ''human-player'', name = (if playerName = [] then ''You'' else playerName),
      avatar = None, isPicker = False, partner = None, isHuman = True\<rparr>
     # map (\<lambda>i. \<lparr>pid = ''ai-player-'' @ digitsOf i, name = ''AI Player '' @ digitsOf i,
                  avatar = None, isPicker = False, partner = None, isHuman = False\<rparr>)
           [1..<playerCount]"

text \<open>An environment for concrete runs: the draw \<open>j = i\<close> at every step of the shuffle
  (which leaves the deck in the order it was built), and a clock that counts events.\<close>

definition testEnv :: Env where
  "testEnv = \<lparr>envUuid = ''game-1'', envRnd = id, envClock = int\<rparr>"

section \<open>Runs of the reducer\<close>

text \<open>Dispatching a list of actions in turn; an exception ends the run.\<close>

fun dispatchAll :: "Env \<Rightarrow> GameState \<Rightarrow> ActionType list \<Rightarrow> error + GameState" where
  "dispatchAll env s [] = Inr s"
| "dispatchAll env s (a # as) =
     (case gameReducer env s a of Inl e \<Rightarrow> Inl e | Inr s' \<Rightarrow> dispatchAll env s' as)"

text \<open>The state after \<open>START_GAME\<close> with the roster of a three-player table.\<close>

definition game3 :: GameState where
  "game3 = (case gameReducer testEnv initialState (START_GAME (handleStartGame ''You'' 3)) of
              Inr s \<Rightarrow> s | Inl e \<Rightarrow> initialState)"

text \<open>The state \<open>newState\<close> that \<open>END_TRICK\<close> builds once the winner id is known.\<close>

definition trickAwarded :: "Env \<Rightarrow> GameState \<Rightarrow> string \<Rightarrow> GameState" where
  "trickAwarded env s winnerId =
     s\<lparr>players := map (\<lambda>player. if pid player = winnerId
                                    then player\<lparr>tricksWon := tricksWon player @ [currentTrick s]\<rparr>
                                    else player) (players s),
       currentTrick := [], leadSuit := None, currentTurn := winnerId,
       trickNumber := trickNumber s + 1,
       log := log s @ [mkEvent env s ''TRICK_COMPLETED'' winnerId
                         (Some (DataTrick (trickNumber s + 1)))]\<rparr>"

text \<open>The number of cards in the hands, the blind, the buried pile, the current trick and
  the won tricks.\<close>

definition cardCount :: "GameState \<Rightarrow> nat" where
  "cardCount s =
     sum_list (map (\<lambda>p. length (cards p)) (players s)) + length (deck s) + length (buried s)
     + length (currentTrick s)
     + sum_list (map (\<lambda>p. sum_list (map length (tricksWon p))) (players s))"


text \<open>
  A complete round at a three-player table, every card played from the hand of the player
  to act: \<open>ai-player-1\<close> picks the blind, buries two cards of its hand that count
  nothing, and ten tricks are played.
\<close>

definition fullGame :: "ActionType list" where
  "fullGame =
     [START_GAME (handleStartGame ''You'' 3),
      PICK_BLIND ''ai-player-1'',
      BURY_CARDS ''ai-player-1'' [mkCard CLUBS SEVEN, mkCard SPADES EIGHT],
      PLAY_CARD ''ai-player-1'' (Some (mkCard CLUBS TEN)),
      PLAY_CARD ''ai-player-2'' (Some (mkCard CLUBS EIGHT)),
      PLAY_CARD ''human-player'' (Some (mkCard CLUBS NINE)),
      PLAY_CARD ''human-player'' (Some (mkCard CLUBS QUEEN)),
      PLAY_CARD ''ai-player-1'' (Some (mkCard CLUBS KING)),
      PLAY_CARD ''ai-player-2'' (Some (mkCard CLUBS JACK)),
      PLAY_CARD ''human-player'' (Some (mkCard SPADES SEVEN)),
      PLAY_CARD ''ai-player-1'' (Some (mkCard SPADES JACK)),
      PLAY_CARD ''ai-player-2'' (Some (mkCard SPADES NINE)),
      PLAY_CARD ''ai-player-2'' (Some (mkCard CLUBS ACE)),
      PLAY_CARD ''human-player'' (Some (mkCard SPADES TEN)),
      PLAY_CARD ''ai-player-1'' (Some (mkCard SPADES ACE)),
      PLAY_CARD ''human-player'' (Some (mkCard SPADES KING)),
      PLAY_CARD ''ai-player-1'' (Some (mkCard HEARTS NINE)),
      PLAY_CARD ''ai-player-2'' (Some (mkCard SPADES QUEEN)),
      PLAY_CARD ''ai-player-1'' (Some (mkCard HEARTS QUEEN)),
      PLAY_CARD ''ai-player-2'' (Some (mkCard HEARTS SEVEN)),
      PLAY_CARD ''human-player'' (Some (mkCard HEARTS EIGHT)),
      PLAY_CARD ''human-player'' (Some (mkCard HEARTS JACK)),
      PLAY_CARD ''ai-player-1'' (Some (mkCard DIAMONDS SEVEN)),
      PLAY_CARD ''ai-player-2'' (Some (mkCard HEARTS TEN)),
      PLAY_CARD ''human-player'' (Some (mkCard HEARTS ACE)),
      PLAY_CARD ''ai-player-1'' (Some (mkCard DIAMONDS TEN)),
      PLAY_CARD ''ai-player-2'' (Some (mkCard HEARTS KING)),
      PLAY_CARD ''ai-player-2'' (Some (mkCard DIAMONDS EIGHT)),
      PLAY_CARD ''human-player'' (Some (mkCard DIAMONDS NINE)),
      PLAY_CARD ''ai-player-1'' (Some (mkCard DIAMONDS KING)),
      PLAY_CARD ''ai-player-1'' (Some (mkCard DIAMONDS ACE)),
      PLAY_CARD ''ai-player-2'' (Some (mkCard DIAMONDS JACK)),
      PLAY_CARD ''human-player'' (Some (mkCard DIAMONDS QUEEN))]"

text \<open>A state in which the last trick of a round is complete and not yet resolved:
  \<open>ai-player-1\<close> is the picker, all hands are empty.\<close>

definition lastTrick :: GameState where
  "lastTrick =
     game3\<lparr>phase := PLAYING, deck := [], buried := [mkCard CLUBS SEVEN, mkCard SPADES EIGHT],
           currentTrick := [mkCard DIAMONDS ACE, mkCard DIAMONDS JACK, mkCard DIAMONDS QUEEN],
           players := map (\<lambda>p. p\<lparr>cards := [], isPicker := (pid p = ''ai-player-1'')\<rparr>)
                          (players game3)\<rparr>"

text \<open>The end of a leaster in which the first two players tie at 11 points and the third
  has 4.\<close>

definition leasterTie :: GameState where
  "leasterTie =
     game3\<lparr>phase := PLAYING, isLeaster := True,
           players :=
             map (\<lambda>p. p\<lparr>cards := [],
                          tricksWon :=
                            (if pid p = ''human-player''
                             then [[mkCard CLUBS ACE, mkCard CLUBS SEVEN, mkCard CLUBS EIGHT]]
                             else if pid p = ''ai-player-1''
                             then [[mkCard SPADES ACE, mkCard SPADES SEVEN, mkCard SPADES EIGHT]]
                             else [[mkCard HEARTS KING, mkCard HEARTS SEVEN,
                                    mkCard HEARTS EIGHT]])\<rparr>)
                 (players game3)\<rparr>"

text \<open>The state \<open>newState\<close> that \<open>PLAY_CARD\<close> builds for an accepted play, before the
  trick is resolved, and the state \<open>END_ROUND\<close> returns.\<close>

definition cardPlayed :: "Env \<Rightarrow> GameState \<Rightarrow> string \<Rightarrow> Card \<Rightarrow> GameState" where
  "cardPlayed env s playerId' crd =
     (let playerIndex = findIndex (\<lambda>p. pid p = playerId') (players s)
      in s\<lparr>players :=
              mapIdx (\<lambda>idx p.
                        if int idx = playerIndex
                        then p\<lparr>cards := filter (\<lambda>c. \<not> (suit c = suit crd \<and> rank c = rank crd))
                                                (cards p)\<rparr>
                        else p) (players s),
            currentTrick := currentTrick s @ [crd],
            currentTurn := pid (players s ! nat ((playerIndex + 1) mod int (length (players s)))),
            leadSuit := (if length (currentTrick s) = 0 \<and> \<not> isTrump crd
                         then Some (suit crd) else leadSuit s),
            log := log s @ [mkEvent env s ''PLAYED_CARD'' playerId' (Some (DataCard crd))]\<rparr>)"

definition roundEnded :: "Env \<Rightarrow> GameState \<Rightarrow> GameState" where
  "roundEnded env s =
     s\<lparr>players :=
         mapIdx (\<lambda>idx player.
                   player\<lparr>isDealer := (int idx = (findIndex isDealer (players s) + 1)
                                                  mod int (length (players s))),
                          isPicker := False, partner := None, cards := [], tricksWon := []\<rparr>)
                (map (scorePlayer s) (players s)),
       currentTurn := pid (players s ! nat ((findIndex isDealer (players s) + 1)
                                               mod int (length (players s)))),
       phase := SCORING, roundNumber := roundNumber s + 1, trickNumber := 0,
       isLeaster := False,
       log := log s @ [mkEvent env s ''ROUND_COMPLETED'' []
                         (Some (DataRound (roundNumber s)
                                  (pickerTeamScore (calculateGameScore s))
                                  (defenderTeamScore (calculateGameScore s))
                                  (isPicKerTeamWinner (calculateGameScore s))))]\<rparr>"

section \<open>Reachable states\<close>

text \<open>
  The actions the application dispatches: \<open>START_GAME\<close> and the five player actions, each
  of them in any phase and by any actor, as the reducer accepts them. The other actions
  are never dispatched from outside the reducer. A state is reachable when a sequence of
  such actions leads to it from the initial state, each step returning a state (a step
  that throws, or that leaves \<open>undefined\<close> in the trick, ends the run) and each action
  admitted by the predicate \<open>ok\<close>.
\<close>

definition enabled :: "GameState \<Rightarrow> ActionType \<Rightarrow> bool" where
  "enabled s a =
     (case a of
        START_GAME bs \<Rightarrow> True
      | PICK_BLIND p \<Rightarrow> True
      | PASS_BLIND p \<Rightarrow> True
      | BURY_CARDS p cds \<Rightarrow> True
      | CALL_PARTNER p q \<Rightarrow> True
      | PLAY_CARD p cardOpt \<Rightarrow> True
      | _ \<Rightarrow> False)"

inductive reach :: "(GameState \<Rightarrow> ActionType \<Rightarrow> bool) \<Rightarrow> GameState \<Rightarrow> bool"
  for ok :: "GameState \<Rightarrow> ActionType \<Rightarrow> bool" where
  init: "reach ok initialState"
| step: "reach ok s \<Longrightarrow> enabled s a \<Longrightarrow> ok s a \<Longrightarrow> gameReducer env s a = Inr s' \<Longrightarrow> reach ok s'"

definition anyAction :: "GameState \<Rightarrow> ActionType \<Rightarrow> bool" where
  "anyAction s a = True"

text \<open>A game that is started while no lead suit is set. The setup screen, from which
  \<open>START_GAME\<close> is dispatched, is shown while no round is running.\<close>

definition startWithoutLead :: "GameState \<Rightarrow> ActionType \<Rightarrow> bool" where
  "startWithoutLead s a = (case a of START_GAME bs \<Rightarrow> leadSuit s = None | _ \<Rightarrow> True)"

text \<open>The rosters of the setup screen flag no entry as picker.\<close>

definition plainRoster :: "GameState \<Rightarrow> ActionType \<Rightarrow> bool" where
  "plainRoster s a = (case a of START_GAME bs \<Rightarrow> \<not> list_ex isPicker bs | _ \<Rightarrow> True)"

text \<open>The invariant of the picking phase: nobody is picker yet, and the player-to-act is
  one of the players.\<close>

definition pickingInv :: "GameState \<Rightarrow> bool" where
  "pickingInv s \<longleftrightarrow>
     (if phase s = PICKING
      then \<not> list_ex isPicker (players s) \<and> list_ex (\<lambda>p. pid p = currentTurn s) (players s)
      else True)"

text \<open>A three-player table at which the first player to be offered the blind has
  passed.\<close>

definition passRun :: "ActionType list" where
  "passRun = [START_GAME (handleStartGame ''You'' 3), PASS_BLIND ''ai-player-1'']"

text \<open>Runs: every action of the list is enabled and admitted where it is dispatched.\<close>

fun runOk :: "(GameState \<Rightarrow> ActionType \<Rightarrow> bool) \<Rightarrow> Env \<Rightarrow> GameState \<Rightarrow> ActionType list \<Rightarrow> bool" where
  "runOk ok env s [] = True"
| "runOk ok env s (a # as) =
     (enabled s a \<and> ok s a
      \<and> (case gameReducer env s a of Inl e \<Rightarrow> False | Inr s' \<Rightarrow> runOk ok env s' as))"

definition stateAfter :: "ActionType list \<Rightarrow> GameState" where
  "stateAfter as = (case dispatchAll testEnv initialState as of Inr s \<Rightarrow> s | Inl e \<Rightarrow> initialState)"

definition trumpLedRun :: "ActionType list" where
  "trumpLedRun = take 3 fullGame @ [PLAY_CARD ''ai-player-1'' (Some (mkCard DIAMONDS SEVEN))]"

text \<open>A round in which a club is led, and a new game started before the trick is complete,
  in which a trump is led.\<close>

definition restartRun :: "ActionType list" where
  "restartRun =
     [START_GAME (handleStartGame ''You'' 3),
      PICK_BLIND ''ai-player-1'',
      BURY_CARDS ''ai-player-1'' [mkCard CLUBS SEVEN, mkCard SPADES EIGHT],
      PLAY_CARD ''ai-player-1'' (Some (mkCard CLUBS TEN)),
      START_GAME (handleStartGame ''You'' 3),
      PICK_BLIND ''ai-player-1'',
      BURY_CARDS ''ai-player-1'' [mkCard CLUBS SEVEN, mkCard SPADES EIGHT],
      PLAY_CARD ''ai-player-1'' (Some (mkCard DIAMONDS SEVEN))]"

text \<open>The invariant of the current trick: the lead suit is unset while the trick is empty
  or was led with a trump, and a trick is in progress only during a round.\<close>

definition trickInv :: "GameState \<Rightarrow> bool" where
  "trickInv s \<longleftrightarrow>
     (case currentTrick s of [] \<Rightarrow> leadSuit s = None
      | t0 # rest \<Rightarrow> (if isTrump t0 then leadSuit s = None else True)
                     \<and> phase s \<noteq> GAME_OVER \<and> phase s \<noteq> SCORING)"

text \<open>
  Cards are compared by suit and rank, as the reducer's filters do. An action is admissible
  when it takes its cards from the hand: the two buried cards are two different cards of
  the picker's hand, and a played card is a card of the actor's hand, which
  \<open>undefined\<close> is not; a roster is admissible when its player ids are pairwise distinct.
\<close>

definition cardKey :: "Card \<Rightarrow> Suit \<times> Rank" where
  "cardKey c = (suit c, rank c)"

definition admissible :: "GameState \<Rightarrow> ActionType \<Rightarrow> bool" where
  "admissible s a =
     (case a of
        START_GAME bs \<Rightarrow> distinct (map pid bs)
      | BURY_CARDS p cds \<Rightarrow>
          (case List.find (\<lambda>q. pid q = p \<and> isPicker q) (players s) of
             None \<Rightarrow> True
           | Some pk \<Rightarrow> distinct (map cardKey cds)
                        \<and> list_all (\<lambda>c. cardKey c \<in> set (map cardKey (cards pk))) cds)
      | PLAY_CARD p cardOpt \<Rightarrow>
          (case cardOpt of
             None \<Rightarrow> False
           | Some crd \<Rightarrow>
               (case List.find (\<lambda>q. pid q = p) (players s) of
                  None \<Rightarrow> True
                | Some q \<Rightarrow> cardKey crd \<in> set (map cardKey (cards q))))
      | _ \<Rightarrow> True)"

text \<open>The cards, by suit and rank, in the hands and the blind, and the number of cards in
  the won tricks.\<close>

definition handKeys :: "Player list \<Rightarrow> Card list \<Rightarrow> (Suit \<times> Rank) multiset" where
  "handKeys ps dk = sum_list (map (\<lambda>p. mset (map cardKey (cards p))) ps) + mset (map cardKey dk)"

definition tricksTotal :: "Player list \<Rightarrow> nat" where
  "tricksTotal ps = sum_list (map (\<lambda>p. sum_list (map length (tricksWon p))) ps)"

text \<open>The invariant of the card count: player ids are distinct, no card is twice in the
  hands and the blind, the count is 32 during a round, and nothing is buried before the
  picker buries.\<close>

definition cardInv :: "GameState \<Rightarrow> bool" where
  "cardInv s \<longleftrightarrow>
     distinct (map pid (players s))
     \<and> (\<forall>k. count (handKeys (players s) (deck s)) k \<le> 1)
     \<and> (if phase s = GAME_OVER then True
        else if phase s = SCORING then cardCount s = length (deck s) + length (buried s)
        else cardCount s = 32)
     \<and> (if phase s = PICKING \<or> phase s = BURYING then buried s = [] else True)"

text \<open>What dealing preserves: the cards in the hands and the deck together, the player
  ids and the won tricks.\<close>

definition dealt :: "Player list \<times> Card list \<Rightarrow> Player list \<times> Card list \<Rightarrow> bool" where
  "dealt st st' \<longleftrightarrow>
     handKeys (fst st') (snd st') = handKeys (fst st) (snd st)
     \<and> map pid (fst st') = map pid (fst st)
     \<and> tricksTotal (fst st') = tricksTotal (fst st)"

text \<open>The end of a five-player round in which the picker \<open>ai-player-1\<close>, who called
  \<open>ai-player-2\<close>, buried the seven and the eight of clubs; the picker won four of the six
  tricks and the partner the other two.\<close>

definition sweep5 :: GameState where
  "sweep5 =
     initialState\<lparr>phase := PLAYING,
       buried := take 2 buildDeck,
       players :=
         map (\<lambda>p. if pid p = ''ai-player-1''
                   then p\<lparr>isPicker := True, partner := Some ''ai-player-2'',
                          tricksWon := map (\<lambda>k. take 5 (drop (2 + 5 * k) buildDeck)) [0..<4]\<rparr>
                   else if pid p = ''ai-player-2''
                   then p\<lparr>tricksWon := map (\<lambda>k. take 5 (drop (2 + 5 * k) buildDeck)) [4..<6]\<rparr>
                   else p)
             (initPlayers (handleStartGame ''You'' 5))\<rparr>"

section \<open>Facts about the primitives\<close>

lemma findIndex_ge: "- 1 \<le> findIndex P xs"
  by (induction xs) (auto simp: Let_def)

lemma findIndex_lt: "findIndex P xs < int (length xs)"
  by (induction xs) (auto simp: Let_def)

lemma findIndex_none_iff: "findIndex P xs = - 1 \<longleftrightarrow> (\<forall>x\<in>set xs. \<not> P x)"
proof (induction xs)
  case Nil
  then show ?case by simp
next
  case (Cons x xs)
  have "- 1 \<le> findIndex P xs" by (rule findIndex_ge)
  with Cons show ?case by (auto simp: Let_def)
qed

lemma findIndex_nth: "findIndex P xs \<noteq> - 1 \<Longrightarrow> P (xs ! nat (findIndex P xs))"
proof (induction xs)
  case Nil
  then show ?case by simp
next
  case (Cons x xs)
  have "- 1 \<le> findIndex P xs" by (rule findIndex_ge)
  with Cons show ?case by (auto simp: Let_def nat_add_distrib split: if_splits)
qed

lemma findIndex_least: "int j < findIndex P xs \<Longrightarrow> \<not> P (xs ! j)"
proof (induction xs arbitrary: j)
  case Nil
  then show ?case by simp
next
  case (Cons x xs)
  then show ?case by (cases j) (auto simp: Let_def split: if_splits)
qed

lemma findIndex_distinct_map:
  assumes "distinct (map f xs)" and "i < length xs"
  shows "findIndex (\<lambda>x. f x = f (xs ! i)) xs = int i"
proof -
  let ?k = "findIndex (\<lambda>x. f x = f (xs ! i)) xs"
  have "xs ! i \<in> set xs" using assms(2) by simp
  then have ne: "?k \<noteq> - 1" by (auto simp: findIndex_none_iff)
  have ge: "0 \<le> ?k" using findIndex_ge [of "\<lambda>x. f x = f (xs ! i)" xs] ne by linarith
  have lt: "nat ?k < length xs" using findIndex_lt [of "\<lambda>x. f x = f (xs ! i)" xs] ge by linarith
  have "f (xs ! nat ?k) = f (xs ! i)" using findIndex_nth [OF ne] .
  then have "map f xs ! nat ?k = map f xs ! i" using lt assms(2) by simp
  then have "nat ?k = i"
    using nth_eq_iff_index_eq [of "map f xs" "nat ?k" i] assms lt by simp
  then show ?thesis using ge by linarith
qed

lemma jsRem_nonneg: "0 \<le> a \<Longrightarrow> 0 < n \<Longrightarrow> jsRem a n = Some (a mod n)"
  by (auto simp: jsRem_def sgn_if)

lemma at_Some: "0 \<le> i \<Longrightarrow> i < int (length xs) \<Longrightarrow> at xs i = Some (xs ! nat i)"
  by (simp add: at_def)

lemma length_mapIdx [simp]: "length (mapIdx f xs) = length xs"
  by (simp add: mapIdx_def)

lemma nth_mapIdx [simp]: "i < length xs \<Longrightarrow> mapIdx f xs ! i = f i (xs ! i)"
  by (simp add: mapIdx_def nth_enumerate_eq)

lemma nextSeat:
  assumes "xs \<noteq> []" and "- 1 \<le> k"
  shows "jsRem (k + 1) (int (length xs)) = Some ((k + 1) mod int (length xs))"
    and "atIdx xs (jsRem (k + 1) (int (length xs))) = Some (xs ! nat ((k + 1) mod int (length xs)))"
    and "atIdx xs (Some ((k + 1) mod int (length xs))) = Some (xs ! nat ((k + 1) mod int (length xs)))"
proof -
  have n: "0 < int (length xs)" using assms(1) by simp
  show a: "jsRem (k + 1) (int (length xs)) = Some ((k + 1) mod int (length xs))"
    using assms(2) n by (intro jsRem_nonneg) auto
  have "0 \<le> (k + 1) mod int (length xs)" "(k + 1) mod int (length xs) < int (length xs)"
    using n by auto
  then show b: "atIdx xs (Some ((k + 1) mod int (length xs))) = Some (xs ! nat ((k + 1) mod int (length xs)))"
    unfolding atIdx_def by (simp add: at_def)
  show "atIdx xs (jsRem (k + 1) (int (length xs))) = Some (xs ! nat ((k + 1) mod int (length xs)))"
    unfolding a by (rule b)
qed



lemma mset_shuffleLoop: "i < length xs \<Longrightarrow> mset (shuffleLoop rnd i xs) = mset xs"
proof (induction i arbitrary: xs)
  case 0
  then show ?case by simp
next
  case (Suc i)
  let ?j = "rnd (Suc i) mod (Suc i + 1)"
  have "?j < Suc i + 1" by (rule mod_less_divisor) simp
  with Suc.prems have j: "?j < length xs" by linarith
  have "mset (swap (Suc i) ?j xs) = mset xs"
    unfolding swap_def using Suc.prems j by (simp add: mset_swap)
  moreover have "i < length (swap (Suc i) ?j xs)"
    using Suc.prems by (simp add: swap_def)
  ultimately show ?case using Suc.IH by simp
qed

lemma mset_shuffle: "mset (shuffle rnd xs) = mset xs"
  by (cases "xs = []") (simp_all add: shuffle_def mset_shuffleLoop)

lemma mset_initializeDeck: "mset (initializeDeck rnd) = mset buildDeck"
  by (simp add: initializeDeck_def mset_shuffle)

lemma set_initializeDeck: "set (initializeDeck rnd) = set buildDeck"
  using mset_initializeDeck [of rnd] by (metis set_mset_mset)

lemma in_buildDeck: "c \<in> set buildDeck \<longleftrightarrow> (\<exists>s r. c = mkCard s r)"
proof
  assume "c \<in> set buildDeck"
  then show "\<exists>s r. c = mkCard s r"
    by (auto simp: buildDeck_def)
next
  assume "\<exists>s r. c = mkCard s r"
  then obtain s r where c: "c = mkCard s r" by blast
  have "s \<in> set allSuits" by (cases s) (simp_all add: allSuits_def)
  moreover have "r \<in> set allRanks" by (cases r) (simp_all add: allRanks_def)
  ultimately show "c \<in> set buildDeck"
    unfolding c buildDeck_def by auto
qed

lemma mkCard_sel [simp]:
  "suit (mkCard s r) = s" "rank (mkCard s r) = r"
  "isTrump (mkCard s r) = isCardTrump r s" "cvalue (mkCard s r) = getCardValue r s"
  by (simp_all add: mkCard_def)

lemma power_mkCard_eq:
  "getCardPower (mkCard s r) = getCardPower (mkCard s' r') \<longleftrightarrow>
     (s = s' \<and> r = r') \<or> (\<not> isCardTrump r s \<and> \<not> isCardTrump r' s' \<and> r = r')"
  by (cases s; cases r; cases s'; cases r'; simp add: mkCard_def isCardTrump_def getCardPower_def)

section \<open>Facts about scoring and trick resolution\<close>

lemma foldl_add_sum: "foldl (\<lambda>acc x. acc + f x) a xs = (a::int) + sum_list (map f xs)"
  by (induction xs arbitrary: a) simp_all

lemma calculatePoints_sum: "calculatePoints cs = sum_list (map cvalue cs)"
  by (simp add: calculatePoints_def foldl_add_sum)

lemma playerPoints_sum: "playerPoints p = sum_list (map calculatePoints (tricksWon p))"
  by (simp add: playerPoints_def foldl_add_sum)

lemma sumTricks_gen:
  "foldl (\<lambda>acc player. foldl (\<lambda>acc trick. acc + calculatePoints trick) acc (tricksWon player))
         a team = a + sum_list (map playerPoints team)"
  by (induction team arbitrary: a) (simp_all add: foldl_add_sum playerPoints_sum)

lemma sumTricks_sum: "sumTricks team = sum_list (map playerPoints team)"
  by (simp add: sumTricks_def sumTricks_gen)

lemma identifyTeams_gen:
  "foldl (\<lambda>(pickerTeam, defenderTeam) player.
            if P player then (pickerTeam @ [player], defenderTeam)
            else (pickerTeam, defenderTeam @ [player])) (a, b) ps
   = (a @ filter P ps, b @ filter (\<lambda>p. \<not> P p) ps)"
  by (induction ps arbitrary: a b) simp_all

lemma identifyTeams_filter:
  "identifyTeams ps =
     (filter (\<lambda>p. isPicker p \<or> Some (pid p) = pickerPartner ps) ps,
      filter (\<lambda>p. \<not> (isPicker p \<or> Some (pid p) = pickerPartner ps)) ps)"
  unfolding identifyTeams_def by (simp add: identifyTeams_gen)

lemma leasterWinner_gen:
  assumes "foldl (\<lambda>(maxPoints, leasterWinnerId) p.
              if playerPoints p > maxPoints then (playerPoints p, pid p)
              else (maxPoints, leasterWinnerId)) (m, w) ps = (m', w')"
  shows "m \<le> m' \<and> (\<forall>p\<in>set ps. playerPoints p \<le> m')
         \<and> (if m' = m then w' = w
            else \<exists>ys p zs. ps = ys @ p # zs \<and> playerPoints p = m' \<and> pid p = w'
                   \<and> (\<forall>q\<in>set ys. playerPoints q < m'))"
  using assms
proof (induction ps arbitrary: m w)
  case Nil
  then show ?case by simp
next
  case (Cons p ps)
  let ?m1 = "if playerPoints p > m then playerPoints p else m"
  let ?w1 = "if playerPoints p > m then pid p else w"
  from Cons.prems have f: "foldl (\<lambda>(maxPoints, leasterWinnerId) p.
              if playerPoints p > maxPoints then (playerPoints p, pid p)
              else (maxPoints, leasterWinnerId)) (?m1, ?w1) ps = (m', w')"
    by (simp split: if_splits)
  note ih = Cons.IH [OF f]
  from ih have le: "?m1 \<le> m'" and all: "\<forall>q\<in>set ps. playerPoints q \<le> m'" by blast+
  have mm: "m \<le> ?m1" and pm: "playerPoints p \<le> ?m1" by auto
  have c1: "m \<le> m'" using le mm by linarith
  have c2: "\<forall>q\<in>set (p # ps). playerPoints q \<le> m'" using all pm le by auto
  have c3: "if m' = m then w' = w
            else \<exists>ys q zs. p # ps = ys @ q # zs \<and> playerPoints q = m' \<and> pid q = w'
                   \<and> (\<forall>r\<in>set ys. playerPoints r < m')"
  proof (cases "m' = m")
    case True
    with le mm have "?m1 = m" by linarith
    then have "\<not> playerPoints p > m" by (auto split: if_splits)
    with ih True show ?thesis by (auto split: if_splits)
  next
    case False
    show ?thesis
    proof (cases "m' = ?m1")
      case True
      with False have gt: "playerPoints p > m" by (auto split: if_splits)
      with True ih have "w' = pid p" "playerPoints p = m'" by (auto split: if_splits)
      then have "p # ps = [] @ p # ps \<and> playerPoints p = m' \<and> pid p = w'
                   \<and> (\<forall>r\<in>set []. playerPoints r < m')" by simp
      with False show ?thesis by (simp only: if_False) blast
    next
      case neq: False
      with ih obtain ys q zs where s: "ps = ys @ q # zs" "playerPoints q = m'" "pid q = w'"
          "\<forall>r\<in>set ys. playerPoints r < m'" by (auto split: if_splits)
      from neq le pm have "playerPoints p < m'" by linarith
      with s have "p # ps = (p # ys) @ q # zs \<and> playerPoints q = m' \<and> pid q = w'
                   \<and> (\<forall>r\<in>set (p # ys). playerPoints r < m')" by simp
      with False show ?thesis by (simp only: if_False) blast
    qed
  qed
  from c1 c2 c3 show ?case by blast
qed

lemma scorePlayer_sel [simp]:
  "pid (scorePlayer s p) = pid p" "cards (scorePlayer s p) = cards p"
  "tricksWon (scorePlayer s p) = tricksWon p" "isDealer (scorePlayer s p) = isDealer p"
  by (simp_all add: scorePlayer_def Let_def split: option.splits prod.splits)

lemma endRound_Inr:
  assumes "players s \<noteq> []"
  shows "endRound env s =
     Inr (s\<lparr>players :=
              mapIdx (\<lambda>idx player.
                        player\<lparr>isDealer := (int idx = (findIndex isDealer (players s) + 1)
                                                       mod int (length (players s))),
                               isPicker := False, partner := None, cards := [],
                               tricksWon := []\<rparr>)
                     (map (scorePlayer s) (players s)),
            currentTurn := pid (players s ! nat ((findIndex isDealer (players s) + 1)
                                                    mod int (length (players s)))),
            phase := SCORING, roundNumber := roundNumber s + 1, trickNumber := 0,
            isLeaster := False,
            log := log s @ [mkEvent env s ''ROUND_COMPLETED'' []
                              (Some (DataRound (roundNumber s)
                                       (pickerTeamScore (calculateGameScore s))
                                       (defenderTeamScore (calculateGameScore s))
                                       (isPicKerTeamWinner (calculateGameScore s))))]\<rparr>)"
proof -
  let ?k = "findIndex isDealer (players s)"
  let ?nd = "(?k + 1) mod int (length (players s))"
  have k: "- 1 \<le> ?k" by (rule findIndex_ge)
  note ns = nextSeat [OF assms k]
  have n0: "0 \<le> ?nd" "?nd < int (length (players s))" using assms by auto
  have a: "atIdx (mapIdx f (map g (players s))) (Some ?nd)
            = Some (f (nat ?nd) (g (players s ! nat ?nd)))" for f :: "nat \<Rightarrow> Player \<Rightarrow> Player" and g
    using n0 by (simp add: atIdx_def at_def)
  show ?thesis
    by (simp add: endRound_def Let_def ns(1) a)
qed

lemma trickLoop_index:
  "trickLoop ls rest i (c, k) = (c', k') \<Longrightarrow> 0 \<le> k \<Longrightarrow> k < i
     \<Longrightarrow> 0 \<le> k' \<and> k' < i + int (length rest)"
proof (induction rest arbitrary: i c k)
  case Nil
  then show ?case by simp
next
  case (Cons x rest)
  obtain c1 k1 where st: "(if isTrump x \<and> \<not> isTrump c then (x, i)
        else if isTrump x \<and> isTrump c \<and> getCardPower x > getCardPower c then (x, i)
        else if \<not> isTrump x \<and> \<not> isTrump c \<and> suit x = ls
                \<and> getCardPower x > getCardPower c then (x, i)
        else (c, k)) = (c1, k1)" by fastforce
  with Cons.prems(1) have r: "trickLoop ls rest (i + 1) (c1, k1) = (c', k')" by simp
  from st Cons.prems(2,3) have "0 \<le> k1" "k1 < i + 1" by (auto split: if_splits)
  from Cons.IH [OF r this] show ?case by simp
qed

lemma determineTrickWinner_Inr:
  assumes "trick \<noteq> []" and "length trick \<le> length ps"
  shows "\<exists>w\<in>set ps. determineTrickWinner trick ls ps = Inr (pid w)"
proof -
  from assms(1) obtain c0 rest where t: "trick = c0 # rest" by (cases trick) auto
  obtain wc wi where l: "trickLoop ls rest 1 (c0, 0) = (wc, wi)" by fastforce
  from trickLoop_index [OF l] have wi: "0 \<le> wi" "wi < 1 + int (length rest)" by auto
  with assms(2) t have wn: "wi < int (length ps)" by simp
  let ?pw = "ps ! nat wi"
  have a1: "at ps wi = Some ?pw" using wi(1) wn by (simp add: at_def)
  have pw: "?pw \<in> set ps" using wi(1) wn by simp
  let ?k = "findIndex (\<lambda>p. pid p = pid ?pw) ps"
  have "?k \<noteq> - 1" using pw by (auto simp: findIndex_none_iff)
  with findIndex_ge [of "\<lambda>p. pid p = pid ?pw" ps] have k0: "0 \<le> ?k" by linarith
  have n: "0 < int (length ps)" using wn wi(1) by linarith
  have j: "jsRem (?k + wi) (int (length ps)) = Some ((?k + wi) mod int (length ps))"
    using k0 wi(1) n by (intro jsRem_nonneg) auto
  let ?w = "ps ! nat ((?k + wi) mod int (length ps))"
  have a2: "atIdx ps (Some ((?k + wi) mod int (length ps))) = Some ?w"
    using n by (simp add: atIdx_def at_def)
  have "nat ((?k + wi) mod int (length ps)) < length ps"
    using n by (simp add: nat_less_iff)
  then have "?w \<in> set ps" by (rule nth_mem)
  moreover have "determineTrickWinner trick ls ps = Inr (pid ?w)"
    by (simp add: determineTrickWinner_def t l a1 j a2 Let_def)
  ultimately show ?thesis by blast
qed

lemma endTrick_cascade:
  assumes "players s \<noteq> []" and "length (currentTrick s) = length (players s)"
  shows "\<exists>w\<in>set (players s).
           determineTrickWinner (currentTrick s) (case leadSuit s of None \<Rightarrow> CLUBS | Some l \<Rightarrow> l)
              (players s) = Inr (pid w)
           \<and> endTrick env s =
               (if cards (hd (players s)) = [] then endRound env (trickAwarded env s (pid w))
                else Inr (trickAwarded env s (pid w)))"
proof -
  from assms have tn: "currentTrick s \<noteq> []" by auto
  from determineTrickWinner_Inr [OF tn, of "players s"] assms(2)
  obtain w where w: "w \<in> set (players s)"
    "determineTrickWinner (currentTrick s) (case leadSuit s of None \<Rightarrow> CLUBS | Some l \<Rightarrow> l)
              (players s) = Inr (pid w)" by auto
  have a0: "at (map f (players s)) 0 = Some (f (hd (players s)))" for f :: "Player \<Rightarrow> Player"
    using assms(1) by (cases "players s") (simp_all add: at_def)
  have "endTrick env s =
               (if cards (hd (players s)) = [] then endRound env (trickAwarded env s (pid w))
                else Inr (trickAwarded env s (pid w)))"
    using assms(2) by (simp add: endTrick_def w(2) trickAwarded_def Let_def a0)
  with w show ?thesis by blast
qed

lemma sum_list_cvalue_mset:
  "mset cs = mset ds \<Longrightarrow> sum_list (map cvalue cs) = sum_list (map cvalue ds)"
proof -
  assume "mset cs = mset ds"
  then have "mset (map cvalue cs) = mset (map cvalue ds)" by (metis mset_map)
  then show ?thesis by (metis sum_mset_sum_list)
qed

lemma buildDeck_points: "sum_list (map cvalue buildDeck) = 120"
  by code_simp

lemma calculatePoints_concat:
  "sum_list (map calculatePoints ts) = sum_list (map cvalue (concat ts))"
  by (induction ts) (simp_all add: calculatePoints_sum)

lemma playerPoints_concat:
  "sum_list (map playerPoints ps) = sum_list (map cvalue (concat (concat (map tricksWon ps))))"
  by (induction ps) (simp_all add: playerPoints_sum calculatePoints_concat)

lemma sum_list_all_zero: "\<forall>x\<in>set xs. f x = (0::int) \<Longrightarrow> sum_list (map f xs) = 0"
  by (induction xs) simp_all

lemma sum_list_filter_split:
  "sum_list (map f (filter P xs)) + sum_list (map f (filter (\<lambda>x. \<not> P x) xs))
     = (sum_list (map f xs) :: int)"
  by (induction xs) simp_all

lemma sweep5_facts:
  "length (players sweep5) = 5" "length (buried sweep5) = 2"
  "list_all (\<lambda>c. cvalue c = 0) (buried sweep5)"
  "list_all (\<lambda>p. isPicker p
                   \<or> (case List.find isPicker (players sweep5) of
                         None \<Rightarrow> False | Some pk \<Rightarrow> partner pk = Some (pid p))
                   \<or> tricksWon p = []) (players sweep5)"
  "concat (concat (map tricksWon (players sweep5))) = drop 2 buildDeck"
  "buried sweep5 = take 2 buildDeck"
  "map isPicker (players sweep5) = [False, True, False, False, False]"
  "partner (players sweep5 ! Suc 0) = Some (pid (players sweep5 ! 2))"
  "length (tricksWon (players sweep5 ! 2)) = 2"
  "(\<Sum>t\<leftarrow>tricksWon (players sweep5 ! 2). \<Sum>c\<leftarrow>t. cvalue c) = 45"
  by code_simp+

lemma endRound_roundEnded: "players s \<noteq> [] \<Longrightarrow> endRound env s = Inr (roundEnded env s)"
  by (simp add: endRound_Inr roundEnded_def)

lemma playCard_reject:
  assumes "\<not> (phase s = PLAYING \<and> currentTurn s = p
              \<and> findIndex (\<lambda>q. pid q = p) (players s) \<noteq> - 1
              \<and> isValidPlay crd (players s ! nat (findIndex (\<lambda>q. pid q = p) (players s)))
                    (currentTrick s) (leadSuit s))"
  shows "playCard env s p (Some crd) = Inr s"
proof -
  let ?k = "findIndex (\<lambda>q. pid q = p) (players s)"
  have a: "at (players s) ?k = Some (players s ! nat ?k)" if "?k \<noteq> - 1"
    using that findIndex_ge [of "\<lambda>q. pid q = p" "players s"]
      findIndex_lt [of "\<lambda>q. pid q = p" "players s"] by (intro at_Some) linarith+
  show ?thesis
  proof (cases "?k = - 1")
    case True
    then show ?thesis by (simp add: playCard_def Let_def)
  next
    case False
    with assms a show ?thesis by (auto simp: playCard_def Let_def)
  qed
qed

lemma playCard_accept:
  assumes "phase s = PLAYING" and "currentTurn s = p"
    and "findIndex (\<lambda>q. pid q = p) (players s) \<noteq> - 1"
    and "isValidPlay crd (players s ! nat (findIndex (\<lambda>q. pid q = p) (players s)))
            (currentTrick s) (leadSuit s)"
  shows "playCard env s p (Some crd) =
           (if length (currentTrick s) + 1 = length (players s)
            then endTrick env (cardPlayed env s p crd) else Inr (cardPlayed env s p crd))"
proof -
  let ?k = "findIndex (\<lambda>q. pid q = p) (players s)"
  have k: "- 1 \<le> ?k" by (rule findIndex_ge)
  have lt: "?k < int (length (players s))" by (rule findIndex_lt)
  from assms(3) k have k0: "0 \<le> ?k" by linarith
  with lt have ne: "players s \<noteq> []" by auto
  have a: "at (players s) ?k = Some (players s ! nat ?k)" using k0 lt by (rule at_Some)
  note ns = nextSeat [OF ne k]
  show ?thesis
    using assms by (simp add: playCard_def Let_def a ns(1) ns(3) cardPlayed_def)
qed

lemma cardPlayed_sel [simp]:
  "length (players (cardPlayed env s p crd)) = length (players s)"
  "currentTrick (cardPlayed env s p crd) = currentTrick s @ [crd]"
  "phase (cardPlayed env s p crd) = phase s"
  "deck (cardPlayed env s p crd) = deck s"
  "buried (cardPlayed env s p crd) = buried s"
  "leadSuit (cardPlayed env s p crd) =
     (if currentTrick s = [] \<and> \<not> isTrump crd then Some (suit crd) else leadSuit s)"
  by (simp_all add: cardPlayed_def Let_def)

lemma trickAwarded_sel [simp]:
  "length (players (trickAwarded env s w)) = length (players s)"
  "currentTrick (trickAwarded env s w) = []"
  "leadSuit (trickAwarded env s w) = None"
  "phase (trickAwarded env s w) = phase s"
  "deck (trickAwarded env s w) = deck s"
  "buried (trickAwarded env s w) = buried s"
  by (simp_all add: trickAwarded_def)

lemma roundEnded_sel [simp]:
  "length (players (roundEnded env s)) = length (players s)"
  "currentTrick (roundEnded env s) = currentTrick s"
  "leadSuit (roundEnded env s) = leadSuit s"
  "phase (roundEnded env s) = SCORING"
  "deck (roundEnded env s) = deck s"
  "buried (roundEnded env s) = buried s"
  by (simp_all add: roundEnded_def)

text \<open>Every result of an accepted play.\<close>

lemma playCard_cases:
  assumes "playCard env s p (Some crd) = Inr s'"
  shows "s' = s
         \<or> (phase s = PLAYING \<and> currentTurn s = p
            \<and> findIndex (\<lambda>q. pid q = p) (players s) \<noteq> - 1
            \<and> isValidPlay crd (players s ! nat (findIndex (\<lambda>q. pid q = p) (players s)))
                 (currentTrick s) (leadSuit s)
            \<and> (s' = cardPlayed env s p crd \<and> length (currentTrick s) + 1 \<noteq> length (players s)
               \<or> length (currentTrick s) + 1 = length (players s)
                 \<and> (\<exists>w\<in>set (players (cardPlayed env s p crd)).
                      s' = trickAwarded env (cardPlayed env s p crd) (pid w)
                      \<or> s' = roundEnded env (trickAwarded env (cardPlayed env s p crd) (pid w)))))"
proof (cases "phase s = PLAYING \<and> currentTurn s = p
              \<and> findIndex (\<lambda>q. pid q = p) (players s) \<noteq> - 1
              \<and> isValidPlay crd (players s ! nat (findIndex (\<lambda>q. pid q = p) (players s)))
                    (currentTrick s) (leadSuit s)")
  case False
  from playCard_reject [OF False, of env] assms show ?thesis by simp
next
  case True
  let ?ns = "cardPlayed env s p crd"
  from True have acc: "playCard env s p (Some crd) =
           (if length (currentTrick s) + 1 = length (players s)
            then endTrick env ?ns else Inr ?ns)"
    by (intro playCard_accept) blast+
  show ?thesis
  proof (cases "length (currentTrick s) + 1 = length (players s)")
    case False
    with acc assms True show ?thesis by simp
  next
    case full: True
    then have ne: "players ?ns \<noteq> []" by (metis cardPlayed_sel(1) length_0_conv add_is_0 One_nat_def nat.simps(3) Suc_eq_plus1)
    have len: "length (currentTrick ?ns) = length (players ?ns)" using full by simp
    from endTrick_cascade [OF ne len, of env] obtain w where w: "w \<in> set (players ?ns)"
      "endTrick env ?ns = (if cards (hd (players ?ns)) = []
           then endRound env (trickAwarded env ?ns (pid w))
           else Inr (trickAwarded env ?ns (pid w)))" by blast
    have ne2: "players (trickAwarded env ?ns (pid w)) \<noteq> []"
      using ne by (metis trickAwarded_sel(1) length_0_conv)
    from acc full assms w(2) endRound_roundEnded [OF ne2, of env]
    have "s' = trickAwarded env ?ns (pid w) \<or> s' = roundEnded env (trickAwarded env ?ns (pid w))"
      by (auto split: if_splits)
    with w(1) True full show ?thesis by blast
  qed
qed

lemma find_findIndex:
  "List.find P xs = (if findIndex P xs = - 1 then None else Some (xs ! nat (findIndex P xs)))"
proof (induction xs)
  case Nil
  then show ?case by simp
next
  case (Cons x xs)
  have "- 1 \<le> findIndex P xs" by (rule findIndex_ge)
  with Cons show ?case by (auto simp: Let_def nat_add_distrib)
qed

lemma findIndex_at:
  "findIndex P xs \<noteq> - 1 \<Longrightarrow> at xs (findIndex P xs) = Some (xs ! nat (findIndex P xs))"
  using findIndex_ge [of P xs] findIndex_lt [of P xs] by (intro at_Some) linarith+

lemma fullGame_final:
  "case dispatchAll testEnv initialState fullGame of
     Inl e \<Rightarrow> False
   | Inr s \<Rightarrow>
       phase s = SCORING
       \<and> map pid (players s) = [''human-player'', ''ai-player-1'', ''ai-player-2'']
       \<and> map score (players s) = [93, 0, 93] \<and> cardCount s = 2
       \<and> evData (last (log s)) = Some (DataRound 1 27 93 False)"
  by code_simp

lemma leasterTie_facts:
  "isLeaster leasterTie" "distinct (map pid (players leasterTie))"
  "length (players leasterTie) = 3"
  "playerPoints (players leasterTie ! 0) = 11" "playerPoints (players leasterTie ! Suc 0) = 11"
  "playerPoints (players leasterTie ! 2) = 4"
  "score (players leasterTie ! 0) = 0" "score (players leasterTie ! Suc 0) = 0"
  by code_simp+

lemma lastTrick_facts:
  "players lastTrick \<noteq> []" "length (players lastTrick) = 3"
  "length (currentTrick lastTrick) = length (players lastTrick)"
  "cards (hd (players lastTrick)) = []"
  by code_simp+

section \<open>Facts about reachable states\<close>

lemma startGame_frame:
  assumes "startGame env s bs = Inr s'"
  shows "currentTrick s' = [] \<and> leadSuit s' = leadSuit s \<and> phase s' = PICKING"
  using assms
  by (auto simp: startGame_def Let_def split: prod.splits option.splits)

lemma pickBlind_frame:
  assumes "pickBlind env s p = Inr s'"
  shows "s' = s \<or> (currentTrick s' = currentTrick s \<and> leadSuit s' = leadSuit s
                    \<and> phase s' = BURYING)"
  using assms by (auto simp: pickBlind_def Let_def split: if_splits)

lemma passBlind_frame:
  assumes "passBlind env s p = Inr s'"
  shows "s' = s \<or> (currentTrick s' = currentTrick s \<and> leadSuit s' = leadSuit s
                    \<and> (phase s' = PLAYING \<or> phase s' = PICKING))"
  using assms by (auto simp: passBlind_def Let_def split: if_splits option.splits)

lemma buryCards_frame:
  assumes "buryCards env s p cds = Inr s'"
  shows "s' = s \<or> (currentTrick s' = currentTrick s \<and> leadSuit s' = leadSuit s
                    \<and> (phase s' = CALLING_PARTNER \<or> phase s' = PLAYING))"
  using assms by (auto simp: buryCards_def Let_def split: if_splits option.splits)

lemma callPartner_frame:
  assumes "callPartner env s p q = Inr s'"
  shows "s' = s \<or> (currentTrick s' = currentTrick s \<and> leadSuit s' = leadSuit s
                    \<and> phase s' = PLAYING)"
  using assms by (auto simp: callPartner_def Let_def split: if_splits option.splits)

lemma trickInv_frame:
  assumes "trickInv s" and "currentTrick s' = currentTrick s" and "leadSuit s' = leadSuit s"
    and "phase s' \<noteq> GAME_OVER" and "phase s' \<noteq> SCORING"
  shows "trickInv s'"
  using assms by (auto simp: trickInv_def split: list.splits)

lemma playCard_undefined:
  assumes "playCard env s p None = Inr s'"
  shows "s' = s"
  using assms by (auto simp: playCard_def Let_def split: if_splits option.splits)

lemma trickInv_playCard:
  assumes "trickInv s" and "playCard env s p cardOpt = Inr s'"
  shows "trickInv s'"
proof (cases cardOpt)
  case None
  with assms(2) have "s' = s" by (simp add: playCard_undefined)
  with assms(1) show ?thesis by simp
next
  case (Some crd)
  with assms(2) have pc: "playCard env s p (Some crd) = Inr s'" by simp
  have a: "trickInv (cardPlayed env s p crd)" if "phase s = PLAYING"
    using assms(1) that by (auto simp: trickInv_def split: list.splits)
  have b: "trickInv (trickAwarded env x w)" for x w
    by (simp add: trickInv_def)
  have c: "trickInv (roundEnded env (trickAwarded env x w))" for x w
    by (simp add: trickInv_def)
  from playCard_cases [OF pc] assms(1) a b c show ?thesis by auto
qed

lemma reach_trickInv: "reach startWithoutLead s \<Longrightarrow> trickInv s"
proof (induction rule: reach.induct)
  case init
  show ?case by (simp add: trickInv_def initialState_def)
next
  case (step s a env s')
  show ?case
  proof (cases a)
    case (START_GAME bs)
    with step.hyps(3) have "leadSuit s = None"
      by (simp add: startWithoutLead_def)
    moreover from step.hyps(4) START_GAME have "startGame env s bs = Inr s'"
      by (simp add: gameReducer_def)
    ultimately show ?thesis using startGame_frame [of env s bs s']
      by (simp add: trickInv_def)
  next
    case (PICK_BLIND p)
    with step.hyps(4) have "pickBlind env s p = Inr s'" by (simp add: gameReducer_def)
    from pickBlind_frame [OF this] step.IH show ?thesis
      by (auto intro: trickInv_frame)
  next
    case (PASS_BLIND p)
    with step.hyps(4) have "passBlind env s p = Inr s'" by (simp add: gameReducer_def)
    from passBlind_frame [OF this] step.IH show ?thesis
      by (auto intro: trickInv_frame)
  next
    case (BURY_CARDS p cds)
    with step.hyps(4) have "buryCards env s p cds = Inr s'" by (simp add: gameReducer_def)
    from buryCards_frame [OF this] step.IH show ?thesis
      by (auto intro: trickInv_frame)
  next
    case (CALL_PARTNER p q)
    with step.hyps(4) have "callPartner env s p q = Inr s'" by (simp add: gameReducer_def)
    from callPartner_frame [OF this] step.IH show ?thesis
      by (auto intro: trickInv_frame)
  next
    case (PLAY_CARD p cardOpt)
    with step.hyps(4) have "playCard env s p cardOpt = Inr s'" by (simp add: gameReducer_def)
    from trickInv_playCard [OF step.IH this] show ?thesis .
  qed (use step.hyps(2) in \<open>simp_all add: enabled_def\<close>)
qed

lemma reach_run:
  "reach ok s \<Longrightarrow> runOk ok env s as \<Longrightarrow> dispatchAll env s as = Inr s' \<Longrightarrow> reach ok s'"
proof (induction as arbitrary: s)
  case Nil
  then show ?case by simp
next
  case (Cons a as)
  from Cons.prems(2) obtain s1 where s1: "gameReducer env s a = Inr s1" "runOk ok env s1 as"
    "enabled s a" "ok s a" by (auto split: sum.splits)
  from Cons.prems(1) s1(3,4,1) have "reach ok s1" by (rule reach.step)
  moreover from Cons.prems(3) s1(1) have "dispatchAll env s1 as = Inr s'" by simp
  ultimately show ?case using s1(2) by (intro Cons.IH)
qed

lemma reach_stateAfter:
  assumes "runOk ok testEnv initialState as"
  shows "reach ok (stateAfter as)"
proof -
  have "\<exists>s'. dispatchAll env s as = Inr s'" if "runOk ok env s as" for env s
    using that by (induction as arbitrary: s) (auto split: sum.splits)
  from this [OF assms] obtain s' where s': "dispatchAll testEnv initialState as = Inr s'" by blast
  then have "stateAfter as = s'" by (simp add: stateAfter_def)
  with reach_run [OF reach.init assms s'] show ?thesis by simp
qed

lemma trumpLed_facts:
  "runOk startWithoutLead testEnv initialState trumpLedRun"
  "currentTrick (stateAfter trumpLedRun) = [mkCard DIAMONDS SEVEN]"
  "isTrump (hd (currentTrick (stateAfter trumpLedRun)))"
  "list_ex isTrump (cards (players (stateAfter trumpLedRun) ! 2))"
  "leadSuit (stateAfter trumpLedRun) = None"
  by code_simp+







section \<open>Facts about the card count\<close>

lemma sum_list_map_update:
  fixes g :: "'a \<Rightarrow> 'b::comm_monoid_add"
  shows "k < length xs \<Longrightarrow> sum_list (map g (xs[k := y])) + g (xs ! k) = sum_list (map g xs) + g y"
proof (induction xs arbitrary: k)
  case Nil
  then show ?case by simp
next
  case (Cons x xs)
  show ?case
  proof (cases k)
    case 0
    then show ?thesis by (simp add: ac_simps)
  next
    case (Suc j)
    with Cons.prems have "j < length xs" by simp
    from Cons.IH [OF this] Suc show ?thesis by (simp add: ac_simps)
  qed
qed

lemma map_update_same:
  "k < length xs \<Longrightarrow> f y = f (xs ! k) \<Longrightarrow> map f (xs[k := y]) = map f xs"
  by (simp add: map_update list_update_same_conv)

lemma mapIdx_update:
  assumes "0 \<le> k" and "k < int (length xs)"
  shows "mapIdx (\<lambda>idx x. if int idx = k then f x else x) xs = xs[nat k := f (xs ! nat k)]"
proof (rule nth_equalityI)
  show "length (mapIdx (\<lambda>idx x. if int idx = k then f x else x) xs) = length (xs[nat k := f (xs ! nat k)])"
    by simp
next
  fix i assume "i < length (mapIdx (\<lambda>idx x. if int idx = k then f x else x) xs)"
  then have i: "i < length xs" by simp
  have "int i = k \<longleftrightarrow> i = nat k" using assms(1) by auto
  with i show "mapIdx (\<lambda>idx x. if int idx = k then f x else x) xs ! i = xs[nat k := f (xs ! nat k)] ! i"
    by (simp add: nth_list_update)
qed

lemma mapIdx_update_nat:
  assumes "k < length xs"
  shows "mapIdx (\<lambda>idx x. if idx = k then f x else x) xs = xs[k := f (xs ! k)]"
  using mapIdx_update [of "int k" xs f] assms by simp

lemma cardCount_alt:
  "cardCount s = size (handKeys (players s) (deck s)) + length (buried s)
                 + length (currentTrick s) + tricksTotal (players s)"
proof -
  have sz: "size (\<Sum>p\<leftarrow>ps. image_mset cardKey (mset (cards p)))
          = sum_list (map (\<lambda>p. length (cards p)) ps)" for ps
    by (induction ps) simp_all
  show ?thesis by (simp add: cardCount_def handKeys_def tricksTotal_def sz)
qed

lemma findIndex_found:
  assumes "findIndex P xs \<noteq> - 1"
  obtains k where "findIndex P xs = int k" "k < length xs" "List.find P xs = Some (xs ! k)"
    "at xs (findIndex P xs) = Some (xs ! k)"
proof -
  let ?k = "nat (findIndex P xs)"
  from assms findIndex_ge [of P xs] have k0: "0 \<le> findIndex P xs" by linarith
  then have a: "findIndex P xs = int ?k" by simp
  have b: "?k < length xs" using findIndex_lt [of P xs] k0 by linarith
  have c: "List.find P xs = Some (xs ! ?k)" using assms by (simp add: find_findIndex)
  have d: "at xs (findIndex P xs) = Some (xs ! ?k)" using assms by (rule findIndex_at)
  from a b c d show ?thesis by (rule that)
qed

lemma pickBlind_cases:
  assumes "pickBlind env s p = Inr s'"
  shows "s' = s
       \<or> (phase s = PICKING \<and> phase s' = BURYING \<and> deck s' = [] \<and> buried s' = buried s
          \<and> currentTrick s' = currentTrick s
          \<and> (\<exists>k<length (players s).
                players s' = (players s)[k := (players s ! k)
                                 \<lparr>isPicker := True, cards := cards (players s ! k) @ deck s\<rparr>]))"
proof (cases "findIndex (\<lambda>q. pid q = p) (players s) = - 1 \<or> phase s \<noteq> PICKING")
  case True
  with assms show ?thesis by (auto simp: pickBlind_def Let_def split: if_splits)
next
  case False
  then have ne: "findIndex (\<lambda>q. pid q = p) (players s) \<noteq> - 1" and ph: "phase s = PICKING" by auto
  from findIndex_found [OF ne] obtain k where k: "findIndex (\<lambda>q. pid q = p) (players s) = int k"
    "k < length (players s)" by blast
  have "mapIdx (\<lambda>idx player. if int idx = int k
                 then player\<lparr>isPicker := True, cards := cards player @ deck s\<rparr> else player) (players s)
        = (players s)[k := (players s ! k)\<lparr>isPicker := True, cards := cards (players s ! k) @ deck s\<rparr>]"
    using mapIdx_update [of "int k" "players s" "\<lambda>player. player\<lparr>isPicker := True, cards := cards player @ deck s\<rparr>"] k(2)
    by simp
  with assms ph k show ?thesis by (auto simp: pickBlind_def Let_def)
qed

lemma passBlind_cases:
  assumes "passBlind env s p = Inr s'"
  shows "s' = s
       \<or> (phase s = PICKING \<and> (phase s' = PICKING \<or> phase s' = PLAYING) \<and> deck s' = deck s
          \<and> buried s' = buried s \<and> currentTrick s' = currentTrick s \<and> players s' = players s)"
  using assms by (auto simp: passBlind_def Let_def split: if_splits option.splits)

lemma buryCards_cases:
  assumes "buryCards env s p cds = Inr s'"
  shows "s' = s
       \<or> (phase s = BURYING \<and> length cds = 2
          \<and> (phase s' = CALLING_PARTNER \<or> phase s' = PLAYING) \<and> deck s' = deck s
          \<and> buried s' = cds \<and> currentTrick s' = currentTrick s
          \<and> (\<exists>k<length (players s).
                List.find (\<lambda>q. pid q = p \<and> isPicker q) (players s) = Some (players s ! k)
                \<and> players s' = (players s)[k := (players s ! k)
                     \<lparr>cards := filter (\<lambda>crd. \<not> list_ex (\<lambda>c. suit c = suit crd \<and> rank c = rank crd) cds)
                                      (cards (players s ! k))\<rparr>]))"
proof (cases "phase s \<noteq> BURYING \<or> length cds \<noteq> 2
              \<or> findIndex (\<lambda>q. pid q = p \<and> isPicker q) (players s) = - 1")
  case True
  with assms show ?thesis by (auto simp: buryCards_def Let_def split: if_splits)
next
  case False
  then have ne: "findIndex (\<lambda>q. pid q = p \<and> isPicker q) (players s) \<noteq> - 1"
    and ph: "phase s = BURYING" and l: "length cds = 2" by auto
  from findIndex_found [OF ne] obtain k where
    k: "findIndex (\<lambda>q. pid q = p \<and> isPicker q) (players s) = int k" "k < length (players s)"
       "List.find (\<lambda>q. pid q = p \<and> isPicker q) (players s) = Some (players s ! k)"
       "at (players s) (findIndex (\<lambda>q. pid q = p \<and> isPicker q) (players s)) = Some (players s ! k)"
    by blast
  have m: "mapIdx (\<lambda>idx player. if idx = k then player\<lparr>cards := h\<rparr> else player) (players s)
        = (players s)[k := (players s ! k)\<lparr>cards := h\<rparr>]" for h
    using k(2) by (rule mapIdx_update_nat)
  have a: "at (players s) (int k) = Some (players s ! k)" using k(2) by (simp add: at_def)
  from assms ph l ne k(3,2) show ?thesis
    by (auto simp: buryCards_def Let_def a k(1) m split: if_splits)
qed

lemma callPartner_cases:
  assumes "callPartner env s p q = Inr s'"
  shows "s' = s
       \<or> (phase s = CALLING_PARTNER \<and> phase s' = PLAYING \<and> deck s' = deck s
          \<and> buried s' = buried s \<and> currentTrick s' = currentTrick s
          \<and> (\<exists>k<length (players s).
                players s' = (players s)[k := (players s ! k)\<lparr>partner := Some q\<rparr>]))"
proof (cases "phase s \<noteq> CALLING_PARTNER \<or> findIndex isPicker (players s) = - 1")
  case True
  with assms show ?thesis by (auto simp: callPartner_def Let_def split: if_splits)
next
  case False
  then have ne: "findIndex isPicker (players s) \<noteq> - 1" and ph: "phase s = CALLING_PARTNER"
    by auto
  from findIndex_found [OF ne] obtain k where
    k: "findIndex isPicker (players s) = int k" "k < length (players s)"
       "at (players s) (findIndex isPicker (players s)) = Some (players s ! k)"
    by blast
  have m: "mapIdx (\<lambda>idx player. if idx = k then player\<lparr>partner := Some q\<rparr> else player) (players s)
        = (players s)[k := (players s ! k)\<lparr>partner := Some q\<rparr>]"
    using k(2) by (rule mapIdx_update_nat)
  have a: "at (players s) (int k) = Some (players s ! k)" using k(2) by (simp add: at_def)
  from assms ph ne k(2) show ?thesis
    by (auto simp: callPartner_def Let_def a k(1) m split: if_splits)
qed

lemma cardPlayed_players:
  assumes "findIndex (\<lambda>q. pid q = p) (players s) \<noteq> - 1"
  shows "\<exists>k<length (players s).
           List.find (\<lambda>q. pid q = p) (players s) = Some (players s ! k)
           \<and> players (cardPlayed env s p crd) = (players s)[k := (players s ! k)
                \<lparr>cards := filter (\<lambda>c. \<not> (suit c = suit crd \<and> rank c = rank crd))
                                 (cards (players s ! k))\<rparr>]"
proof -
  from findIndex_found [OF assms] obtain k where
    k: "findIndex (\<lambda>q. pid q = p) (players s) = int k" "k < length (players s)"
       "List.find (\<lambda>q. pid q = p) (players s) = Some (players s ! k)" by blast
  have m: "mapIdx (\<lambda>idx player. if int idx = int k
             then player\<lparr>cards := filter (\<lambda>c. \<not> (suit c = suit crd \<and> rank c = rank crd)) (cards player)\<rparr>
             else player) (players s)
        = (players s)[k := (players s ! k)
             \<lparr>cards := filter (\<lambda>c. \<not> (suit c = suit crd \<and> rank c = rank crd)) (cards (players s ! k))\<rparr>]"
    using mapIdx_update [of "int k" "players s"
        "\<lambda>player. player\<lparr>cards := filter (\<lambda>c. \<not> (suit c = suit crd \<and> rank c = rank crd)) (cards player)\<rparr>"] k(2)
    by simp
  from k(2,3) m show ?thesis by (auto simp: cardPlayed_def Let_def k(1))
qed


lemma handKeys_update:
  assumes "k < length ps"
  shows "handKeys (ps[k := q]) dk + mset (map cardKey (cards (ps ! k)))
           = handKeys ps dk + mset (map cardKey (cards q))"
  using sum_list_map_update [OF assms, of "\<lambda>p. mset (map cardKey (cards p))" q]
  by (simp add: handKeys_def ac_simps)

lemma tricksTotal_update:
  assumes "k < length ps"
  shows "tricksTotal (ps[k := q]) + sum_list (map length (tricksWon (ps ! k)))
           = tricksTotal ps + sum_list (map length (tricksWon q))"
  using sum_list_map_update [OF assms, of "\<lambda>p. sum_list (map length (tricksWon p))" q]
  by (simp add: tricksTotal_def)

lemma count_le_sum_list:
  "p \<in> set ps \<Longrightarrow> count (g p) x \<le> count (sum_list (map g ps)) x"
  by (induction ps) auto

lemma distinct_of_count:
  assumes "\<forall>a. count (mset xs) a \<le> 1"
  shows "distinct xs"
  unfolding distinct_count_atmost_1
proof (intro allI)
  fix a
  from assms have "count (mset xs) a \<le> 1" by blast
  then show "count (mset xs) a = (if a \<in> set xs then 1 else 0)"
  proof (cases "a \<in> set xs")
    case True
    then have "0 < count (mset xs) a" by simp
    with \<open>count (mset xs) a \<le> 1\<close> have "count (mset xs) a = 1" by linarith
    with True show ?thesis by (simp only: if_True)
  next
    case False
    then show ?thesis by simp
  qed
qed

lemma hand_distinct:
  assumes "\<forall>x. count (handKeys ps dk) x \<le> 1" and "p \<in> set ps"
  shows "distinct (map cardKey (cards p))"
proof (rule distinct_of_count, intro allI)
  fix a
  have "count (mset (map cardKey (cards p))) a
          \<le> count (sum_list (map (\<lambda>p. mset (map cardKey (cards p))) ps)) a"
    using assms(2) by (rule count_le_sum_list)
  also have "\<dots> \<le> count (handKeys ps dk) a" by (simp add: handKeys_def)
  also have "\<dots> \<le> 1" using assms(1) by blast
  finally show "count (mset (map cardKey (cards p))) a \<le> 1" .
qed

lemma length_filter_keys:
  assumes "distinct (map f xs)" and "distinct ys" and "set ys \<subseteq> f ` set xs"
  shows "length (filter (\<lambda>x. f x \<notin> set ys) xs) + length ys = length xs"
proof -
  have "map f (filter (\<lambda>x. f x \<in> set ys) xs) = filter (\<lambda>k. k \<in> set ys) (map f xs)"
    by (simp add: filter_map o_def)
  then have d: "distinct (map f (filter (\<lambda>x. f x \<in> set ys) xs))"
    using assms(1) by simp
  have "set (map f (filter (\<lambda>x. f x \<in> set ys) xs)) = set ys"
    using assms(3) by auto
  with d have "length (map f (filter (\<lambda>x. f x \<in> set ys) xs)) = card (set ys)"
    by (metis distinct_card)
  also have "\<dots> = length ys" using assms(2) by (rule distinct_card)
  finally have "length (filter (\<lambda>x. f x \<in> set ys) xs) = length ys" by simp
  moreover have "length (filter (\<lambda>x. f x \<in> set ys) xs)
                   + length (filter (\<lambda>x. \<not> f x \<in> set ys) xs) = length xs"
    by (rule sum_length_filter_compl)
  ultimately show ?thesis by simp
qed

lemma count_map_filter_le:
  "count (mset (map f (filter P xs))) x \<le> count (mset (map f xs)) x"
  by (induction xs) auto

text \<open>Removing cards from one hand.\<close>

lemma hand_filtered:
  assumes "k < length ps" and inv: "\<forall>x. count (handKeys ps dk) x \<le> 1"
    and "distinct ys" and "set ys \<subseteq> cardKey ` set (cards (ps ! k))"
    and q: "cards q = filter (\<lambda>c. cardKey c \<notin> set ys) (cards (ps ! k))"
  shows "\<forall>x. count (handKeys (ps[k := q]) dk) x \<le> 1"
    and "size (handKeys (ps[k := q]) dk) + length ys = size (handKeys ps dk)"
proof -
  let ?h = "cards (ps ! k)"
  note u = handKeys_update [OF assms(1), of q dk]
  have sub: "count (mset (map cardKey (cards q))) x \<le> count (mset (map cardKey ?h)) x" for x
    unfolding q by (rule count_map_filter_le)
  show "\<forall>x. count (handKeys (ps[k := q]) dk) x \<le> 1"
  proof
    fix x
    from arg_cong [OF u, of "\<lambda>M. count M x"]
    have e: "count (handKeys (ps[k := q]) dk) x + count (mset (map cardKey ?h)) x
                   = count (handKeys ps dk) x + count (mset (map cardKey (cards q))) x"
      by (simp only: count_union)
    from inv have "count (handKeys ps dk) x \<le> 1" by blast
    with e sub [of x] show "count (handKeys (ps[k := q]) dk) x \<le> 1" by linarith
  qed
  have "ps ! k \<in> set ps" using assms(1) by simp
  with inv have "distinct (map cardKey ?h)" by (rule hand_distinct)
  from length_filter_keys [OF this assms(3,4)] q
  have l: "length (cards q) + length ys = length ?h" by simp
  from arg_cong [OF u, of size]
  have "size (handKeys (ps[k := q]) dk) + length ?h
                 = size (handKeys ps dk) + length (cards q)"
    by (simp only: size_union size_mset length_map)
  with l show "size (handKeys (ps[k := q]) dk) + length ys = size (handKeys ps dk)" by linarith
qed

lemma same_cards_update:
  assumes "k < length ps" and "cards q = cards (ps ! k)" and "tricksWon q = tricksWon (ps ! k)"
    and "pid q = pid (ps ! k)"
  shows "handKeys (ps[k := q]) dk = handKeys ps dk" and "tricksTotal (ps[k := q]) = tricksTotal ps"
    and "map pid (ps[k := q]) = map pid ps"
proof -
  from handKeys_update [OF assms(1), of q dk] assms(2)
  show "handKeys (ps[k := q]) dk = handKeys ps dk" by simp
  from tricksTotal_update [OF assms(1), of q] assms(3)
  show "tricksTotal (ps[k := q]) = tricksTotal ps" by simp
  from assms(1,4) show "map pid (ps[k := q]) = map pid ps" by (simp add: map_update_same)
qed

lemma map_mapIdx: "map g (mapIdx F xs) = mapIdx (\<lambda>i x. g (F i x)) xs"
  by (simp add: mapIdx_def split_def)

lemma mapIdx_const: "mapIdx (\<lambda>i x. h x) xs = map h xs"
  by (rule nth_equalityI) simp_all

lemma cardInv_pickBlind:
  assumes "cardInv s" and "pickBlind env s p = Inr s'"
  shows "cardInv s'"
proof -
  from pickBlind_cases [OF assms(2)] show ?thesis
  proof
    assume "s' = s"
    with assms(1) show ?thesis by simp
  next
    assume h: "phase s = PICKING \<and> phase s' = BURYING \<and> deck s' = [] \<and> buried s' = buried s
          \<and> currentTrick s' = currentTrick s
          \<and> (\<exists>k<length (players s).
                players s' = (players s)[k := (players s ! k)
                                 \<lparr>isPicker := True, cards := cards (players s ! k) @ deck s\<rparr>])"
    then obtain k where k: "k < length (players s)"
      "players s' = (players s)[k := (players s ! k)
                                 \<lparr>isPicker := True, cards := cards (players s ! k) @ deck s\<rparr>]"
      by blast
    let ?ps = "players s"
    let ?q = "(?ps ! k)\<lparr>isPicker := True, cards := cards (?ps ! k) @ deck s\<rparr>"
    from handKeys_update [OF k(1), of ?q "[]"]
    have "handKeys (?ps[k := ?q]) [] + mset (map cardKey (cards (?ps ! k)))
            = handKeys ?ps (deck s) + mset (map cardKey (cards (?ps ! k)))"
      by (simp add: handKeys_def ac_simps)
    then have hk: "handKeys (players s') (deck s') = handKeys ?ps (deck s)"
      using h k(2) by simp
    from tricksTotal_update [OF k(1), of ?q]
    have tt: "tricksTotal (players s') = tricksTotal ?ps" using k(2) by simp
    have ids: "map pid (players s') = map pid ?ps"
      using k by (simp add: map_update_same)
    from assms(1) h have c: "cardCount s = 32" "buried s = []"
      by (simp_all add: cardInv_def)
    have "cardCount s' = cardCount s"
      unfolding cardCount_alt hk tt using h by simp
    with assms(1) h c hk ids show ?thesis by (simp add: cardInv_def)
  qed
qed

lemma cardInv_passBlind:
  assumes "cardInv s" and "passBlind env s p = Inr s'"
  shows "cardInv s'"
proof -
  from passBlind_cases [OF assms(2)] show ?thesis
  proof
    assume "s' = s"
    with assms(1) show ?thesis by simp
  next
    assume h: "phase s = PICKING \<and> (phase s' = PICKING \<or> phase s' = PLAYING) \<and> deck s' = deck s
          \<and> buried s' = buried s \<and> currentTrick s' = currentTrick s \<and> players s' = players s"
    then have "cardCount s' = cardCount s" by (simp add: cardCount_def)
    with assms(1) h show ?thesis by (auto simp: cardInv_def)
  qed
qed

lemma cardInv_callPartner:
  assumes "cardInv s" and "callPartner env s p q = Inr s'"
  shows "cardInv s'"
proof -
  from callPartner_cases [OF assms(2)] show ?thesis
  proof
    assume "s' = s"
    with assms(1) show ?thesis by simp
  next
    assume h: "phase s = CALLING_PARTNER \<and> phase s' = PLAYING \<and> deck s' = deck s
          \<and> buried s' = buried s \<and> currentTrick s' = currentTrick s
          \<and> (\<exists>k<length (players s).
                players s' = (players s)[k := (players s ! k)\<lparr>partner := Some q\<rparr>])"
    then obtain k where k: "k < length (players s)"
      "players s' = (players s)[k := (players s ! k)\<lparr>partner := Some q\<rparr>]" by blast
    note sc = same_cards_update [OF k(1), of "(players s ! k)\<lparr>partner := Some q\<rparr>"]
    have hk: "handKeys (players s') (deck s') = handKeys (players s) (deck s)"
      using h k(2) sc(1) [of "deck s"] by simp
    have tt: "tricksTotal (players s') = tricksTotal (players s)" using k(2) sc(2) by simp
    have ids: "map pid (players s') = map pid (players s)" using k(2) sc(3) by simp
    have "cardCount s' = cardCount s" unfolding cardCount_alt hk tt using h by simp
    with assms(1) h hk ids show ?thesis by (simp add: cardInv_def)
  qed
qed

lemma list_ex_cardKey:
  "list_ex (\<lambda>c. suit c = suit crd \<and> rank c = rank crd) cds \<longleftrightarrow> cardKey crd \<in> set (map cardKey cds)"
proof -
  have "(\<exists>c\<in>set cds. suit c = suit crd \<and> rank c = rank crd)
          \<longleftrightarrow> (suit crd, rank crd) \<in> (\<lambda>c. (suit c, rank c)) ` set cds"
    by (induction cds) auto
  then show ?thesis by (simp add: list_ex_iff cardKey_def)
qed

lemma cardInv_buryCards:
  assumes "cardInv s" and "admissible s (BURY_CARDS p cds)" and "buryCards env s p cds = Inr s'"
  shows "cardInv s'"
proof -
  from buryCards_cases [OF assms(3)] show ?thesis
  proof
    assume "s' = s"
    with assms(1) show ?thesis by simp
  next
    assume h: "phase s = BURYING \<and> length cds = 2
          \<and> (phase s' = CALLING_PARTNER \<or> phase s' = PLAYING) \<and> deck s' = deck s
          \<and> buried s' = cds \<and> currentTrick s' = currentTrick s
          \<and> (\<exists>k<length (players s).
                List.find (\<lambda>q. pid q = p \<and> isPicker q) (players s) = Some (players s ! k)
                \<and> players s' = (players s)[k := (players s ! k)
                     \<lparr>cards := filter (\<lambda>crd. \<not> list_ex (\<lambda>c. suit c = suit crd \<and> rank c = rank crd) cds)
                                      (cards (players s ! k))\<rparr>])"
    let ?ps = "players s"
    from h obtain k where k: "k < length ?ps"
      "List.find (\<lambda>q. pid q = p \<and> isPicker q) ?ps = Some (?ps ! k)"
      "players s' = ?ps[k := (?ps ! k)
                     \<lparr>cards := filter (\<lambda>crd. \<not> list_ex (\<lambda>c. suit c = suit crd \<and> rank c = rank crd) cds)
                                      (cards (?ps ! k))\<rparr>]"
      by blast
    let ?q = "(?ps ! k)\<lparr>cards := filter (\<lambda>crd. \<not> list_ex (\<lambda>c. suit c = suit crd \<and> rank c = rank crd) cds)
                                      (cards (?ps ! k))\<rparr>"
    let ?ys = "map cardKey cds"
    from assms(2) k(2) have adm: "distinct ?ys" "set ?ys \<subseteq> cardKey ` set (cards (?ps ! k))"
      by (auto simp: admissible_def list_all_iff)
    have q: "cards ?q = filter (\<lambda>c. cardKey c \<notin> set ?ys) (cards (?ps ! k))"
      by (simp add: list_ex_cardKey)
    from assms(1) have inv: "\<forall>x. count (handKeys ?ps (deck s)) x \<le> 1" by (simp add: cardInv_def)
    note hf = hand_filtered [OF k(1) inv adm q]
    from hf(1) have c1: "\<forall>x. count (handKeys (players s') (deck s')) x \<le> 1"
      using h k(3) by simp
    from hf(2) have sz: "size (handKeys (players s') (deck s')) + 2 = size (handKeys ?ps (deck s))"
      using h k(3) by simp
    from tricksTotal_update [OF k(1), of ?q]
    have tt: "tricksTotal (players s') = tricksTotal ?ps" using k(3) by simp
    have ids: "map pid (players s') = map pid ?ps" using k(1,3) by (simp add: map_update_same)
    from assms(1) h have c: "cardCount s = 32" "buried s = []" by (simp_all add: cardInv_def)
    have "cardCount s' = cardCount s"
      unfolding cardCount_alt tt using h sz c(2) by simp
    with assms(1) h c c1 ids show ?thesis by (auto simp: cardInv_def)
  qed
qed


lemma cardInv_cardPlayed:
  assumes "cardInv s" and "phase s = PLAYING"
    and "findIndex (\<lambda>q. pid q = p) (players s) \<noteq> - 1"
    and "admissible s (PLAY_CARD p (Some crd))"
  shows "cardInv (cardPlayed env s p crd)"
proof -
  let ?ps = "players s"
  let ?s' = "cardPlayed env s p crd"
  from cardPlayed_players [OF assms(3), of env crd] obtain k where k: "k < length ?ps"
    "List.find (\<lambda>q. pid q = p) ?ps = Some (?ps ! k)"
    "players ?s' = ?ps[k := (?ps ! k)
                \<lparr>cards := filter (\<lambda>c. \<not> (suit c = suit crd \<and> rank c = rank crd))
                                 (cards (?ps ! k))\<rparr>]" by blast
  let ?q = "(?ps ! k)\<lparr>cards := filter (\<lambda>c. \<not> (suit c = suit crd \<and> rank c = rank crd))
                                 (cards (?ps ! k))\<rparr>"
  from assms(4) k(2) have adm: "distinct [cardKey crd]"
      "set [cardKey crd] \<subseteq> cardKey ` set (cards (?ps ! k))"
    by (auto simp: admissible_def)
  have q: "cards ?q = filter (\<lambda>c. cardKey c \<notin> set [cardKey crd]) (cards (?ps ! k))"
    by (simp add: cardKey_def)
  from assms(1) have inv: "\<forall>x. count (handKeys ?ps (deck s)) x \<le> 1" by (simp add: cardInv_def)
  note hf = hand_filtered [OF k(1) inv adm q]
  from hf(1) have c1: "\<forall>x. count (handKeys (players ?s') (deck ?s')) x \<le> 1"
    using k(3) by simp
  from hf(2) have sz: "size (handKeys (players ?s') (deck ?s')) + 1 = size (handKeys ?ps (deck s))"
    using k(3) by simp
  from tricksTotal_update [OF k(1), of ?q]
  have tt: "tricksTotal (players ?s') = tricksTotal ?ps" using k(3) by simp
  have ids: "map pid (players ?s') = map pid ?ps" using k(1,3) by (simp add: map_update_same)
  from assms(1,2) have c: "cardCount s = 32" by (simp add: cardInv_def)
  have "cardCount ?s' = cardCount s"
    unfolding cardCount_alt tt using sz by simp
  with assms(1,2) c c1 ids show ?thesis by (simp add: cardInv_def)
qed

lemma award_update:
  assumes "distinct (map pid ps)" and "j < length ps"
  shows "map (\<lambda>pl. if pid pl = pid (ps ! j) then f pl else pl) ps = ps[j := f (ps ! j)]"
proof (rule nth_equalityI)
  show "length (map (\<lambda>pl. if pid pl = pid (ps ! j) then f pl else pl) ps) = length (ps[j := f (ps ! j)])"
    by simp
next
  fix i assume "i < length (map (\<lambda>pl. if pid pl = pid (ps ! j) then f pl else pl) ps)"
  then have i: "i < length ps" by simp
  have "pid (ps ! i) = pid (ps ! j) \<longleftrightarrow> i = j"
    using nth_eq_iff_index_eq [of "map pid ps" i j] assms i by simp
  with i show "map (\<lambda>pl. if pid pl = pid (ps ! j) then f pl else pl) ps ! i = ps[j := f (ps ! j)] ! i"
    by (simp add: nth_list_update)
qed

lemma cardInv_trickAwarded:
  assumes "cardInv x" and "phase x = PLAYING" and "w \<in> set (players x)"
  shows "cardInv (trickAwarded env x (pid w))"
proof -
  let ?ps = "players x"
  let ?s' = "trickAwarded env x (pid w)"
  from assms(3) obtain j where j: "j < length ?ps" "?ps ! j = w" by (auto simp: in_set_conv_nth)
  from assms(1) have d: "distinct (map pid ?ps)" by (simp add: cardInv_def)
  let ?q = "(?ps ! j)\<lparr>tricksWon := tricksWon (?ps ! j) @ [currentTrick x]\<rparr>"
  have pl: "players ?s' = ?ps[j := ?q]"
    using award_update [OF d j(1), of "\<lambda>pl. pl\<lparr>tricksWon := tricksWon pl @ [currentTrick x]\<rparr>"] j(2)
    by (simp add: trickAwarded_def)
  from handKeys_update [OF j(1), of ?q "deck x"]
  have hk: "handKeys (players ?s') (deck ?s') = handKeys ?ps (deck x)" using pl by simp
  from tricksTotal_update [OF j(1), of ?q]
  have tt: "tricksTotal (players ?s') = tricksTotal ?ps + length (currentTrick x)"
    using pl by simp
  have ids: "map pid (players ?s') = map pid ?ps" using j(1) pl by (simp add: map_update_same)
  from assms(1,2) have c: "cardCount x = 32" by (simp add: cardInv_def)
  have "cardCount ?s' = cardCount x"
    unfolding cardCount_alt hk tt by simp
  with assms(1,2) c hk ids show ?thesis by (simp add: cardInv_def)
qed

lemma cardInv_roundEnded:
  assumes "cardInv y" and "currentTrick y = []"
  shows "cardInv (roundEnded env y)"
proof -
  let ?ps = "players y"
  let ?s' = "roundEnded env y"
  have ids: "map pid (players ?s') = map pid ?ps"
    by (simp add: roundEnded_def map_mapIdx mapIdx_const)
  have "sum_list (map (\<lambda>p. mset (map cardKey (cards p))) (players ?s')) = {#}"
    by (simp add: roundEnded_def map_mapIdx mapIdx_const o_def)
  then have hk: "handKeys (players ?s') (deck ?s') = mset (map cardKey (deck y))"
    by (simp add: handKeys_def)
  have tt: "tricksTotal (players ?s') = 0"
    by (simp add: tricksTotal_def roundEnded_def map_mapIdx mapIdx_const o_def)
  have le: "count (mset (map cardKey (deck y))) a \<le> count (handKeys ?ps (deck y)) a" for a
    by (simp add: handKeys_def)
  from assms(1) have "\<forall>a. count (handKeys ?ps (deck y)) a \<le> 1" by (simp add: cardInv_def)
  with le have c1: "\<forall>a. count (handKeys (players ?s') (deck ?s')) a \<le> 1"
    unfolding hk by (meson le_trans)
  have cc: "cardCount ?s' = length (deck ?s') + length (buried ?s')"
    unfolding cardCount_alt hk tt using assms(2) by simp
  from assms(1) ids c1 cc show ?thesis by (simp add: cardInv_def)
qed

lemma cardInv_playCard:
  assumes "cardInv s" and "admissible s (PLAY_CARD p (Some crd))" and "playCard env s p (Some crd) = Inr s'"
  shows "cardInv s'"
proof -
  let ?ns = "cardPlayed env s p crd"
  have a: "cardInv ?ns" if "phase s = PLAYING" "findIndex (\<lambda>q. pid q = p) (players s) \<noteq> - 1"
    using assms(1) that assms(2) by (rule cardInv_cardPlayed)
  have b: "cardInv (trickAwarded env ?ns (pid w))"
    if "phase s = PLAYING" "findIndex (\<lambda>q. pid q = p) (players s) \<noteq> - 1" "w \<in> set (players ?ns)" for w
  proof (rule cardInv_trickAwarded)
    show "cardInv ?ns" using that(1,2) by (rule a)
    show "phase ?ns = PLAYING" using that(1) by simp
    show "w \<in> set (players ?ns)" using that(3) .
  qed
  have c: "cardInv (roundEnded env (trickAwarded env ?ns (pid w)))"
    if "phase s = PLAYING" "findIndex (\<lambda>q. pid q = p) (players s) \<noteq> - 1" "w \<in> set (players ?ns)" for w
  proof (rule cardInv_roundEnded)
    show "cardInv (trickAwarded env ?ns (pid w))" using that by (rule b)
    show "currentTrick (trickAwarded env ?ns (pid w)) = []" by simp
  qed
  from playCard_cases [OF assms(3)] assms(1) a b c show ?thesis by blast
qed

lemma dealt_refl: "dealt st st"
  by (simp add: dealt_def)

lemma dealt_trans: "dealt a b \<Longrightarrow> dealt b c \<Longrightarrow> dealt a c"
  by (simp add: dealt_def)

lemma dealt_dealStep:
  assumes "fst st \<noteq> []"
  shows "dealt st (dealStep st p)"
proof -
  obtain ps dk where st: "st = (ps, dk)" by (cases st)
  with assms have ne: "ps \<noteq> []" by simp
  show ?thesis
  proof (cases dk)
    case Nil
    with st show ?thesis by (simp add: dealStep_def dealt_def)
  next
    case (Cons c rest)
    let ?i = "nat ((findIndex isDealer ps + 1 + int p) mod int (length ps))"
    have i: "?i < length ps" using ne by (simp add: nat_less_iff)
    let ?q = "(ps ! ?i)\<lparr>cards := cards (ps ! ?i) @ [c]\<rparr>"
    have ds: "dealStep st p = (ps[?i := ?q], rest)"
      by (simp add: dealStep_def st Cons pushCard_def Let_def)
    from handKeys_update [OF i, of ?q rest]
    have "handKeys (ps[?i := ?q]) rest + mset (map cardKey (cards (ps ! ?i)))
            = handKeys ps (c # rest) + mset (map cardKey (cards (ps ! ?i)))"
      by (simp add: handKeys_def ac_simps)
    then have hk: "handKeys (ps[?i := ?q]) rest = handKeys ps (c # rest)" by simp
    from tricksTotal_update [OF i, of ?q]
    have tt: "tricksTotal (ps[?i := ?q]) = tricksTotal ps" by simp
    have ids: "map pid (ps[?i := ?q]) = map pid ps" using i by (simp add: map_update_same)
    show ?thesis unfolding ds by (simp add: dealt_def st Cons hk tt ids)
  qed
qed

lemma dealt_nonempty: "dealt st st' \<Longrightarrow> fst st \<noteq> [] \<Longrightarrow> fst st' \<noteq> []"
  by (metis dealt_def map_is_Nil_conv)

lemma dealt_inner:
  assumes "fst st \<noteq> []"
  shows "dealt st (foldl dealStep st qs)"
  using assms
proof (induction qs arbitrary: st)
  case Nil
  show ?case by (simp add: dealt_refl)
next
  case (Cons q qs)
  have a: "dealt st (dealStep st q)" using Cons.prems by (rule dealt_dealStep)
  then have "fst (dealStep st q) \<noteq> []" using Cons.prems by (rule dealt_nonempty)
  from Cons.IH [OF this] have "dealt (dealStep st q) (foldl dealStep (dealStep st q) qs)" .
  with a show ?case by (simp add: dealt_trans)
qed

lemma dealt_outer:
  assumes "fst st \<noteq> []"
  shows "dealt st (foldl (\<lambda>st i. foldl dealStep st qs) st is)"
  using assms
proof (induction "is" arbitrary: st)
  case Nil
  show ?case by (simp add: dealt_refl)
next
  case (Cons i "is")
  have a: "dealt st (foldl dealStep st qs)" using Cons.prems by (rule dealt_inner)
  then have "fst (foldl dealStep st qs) \<noteq> []" using Cons.prems by (rule dealt_nonempty)
  from Cons.IH [OF this] a show ?case by (simp add: dealt_trans)
qed

lemma dealt_dealCards: "dealt (ps, dk) (dealCards dk ps)"
proof (cases "ps = []")
  case True
  have idle: "foldl (\<lambda>st i. st) st is = st" for st :: "Player list \<times> Card list" and "is" :: "nat list"
    by (induction "is") simp_all
  have "dealCards dk [] = ([], dk)"
    by (simp only: dealCards_def Let_def list.size upt_0 foldl_Nil idle)
  with True show ?thesis by (simp only: dealt_refl)
next
  case False
  then have ne: "fst (ps, dk) \<noteq> []" by simp
  show ?thesis unfolding dealCards_def Let_def by (rule dealt_outer [OF ne])
qed

lemma distinct_keys_buildDeck: "distinct (map cardKey buildDeck)"
  by code_simp

lemma length_buildDeck: "length buildDeck = 32"
  by code_simp

lemma cardInv_startGame:
  assumes "distinct (map pid bs)" and "startGame env s bs = Inr s'"
  shows "cardInv s'"
proof -
  let ?dk = "initializeDeck (envRnd env)"
  obtain ps blind where dc: "dealCards ?dk (initPlayers bs) = (ps, blind)"
    by (cases "dealCards ?dk (initPlayers bs)")
  from dealt_dealCards [of "initPlayers bs" ?dk] dc
  have d: "handKeys ps blind = handKeys (initPlayers bs) ?dk"
    "map pid ps = map pid (initPlayers bs)" "tricksTotal ps = tricksTotal (initPlayers bs)"
    by (simp_all add: dealt_def)
  have ids: "map pid (initPlayers bs) = map pid bs"
    by (simp add: initPlayers_def map_mapIdx mapIdx_const)
  have tt: "tricksTotal (initPlayers bs) = 0"
    by (simp add: tricksTotal_def initPlayers_def map_mapIdx mapIdx_const o_def)
  have "sum_list (map (\<lambda>p. mset (map cardKey (cards p))) (initPlayers bs)) = {#}"
    by (simp add: initPlayers_def map_mapIdx mapIdx_const o_def)
  then have "handKeys (initPlayers bs) ?dk = mset (map cardKey ?dk)"
    by (simp add: handKeys_def)
  also have "\<dots> = mset (map cardKey buildDeck)"
    by (simp add: mset_initializeDeck)
  finally have hk: "handKeys ps blind = mset (map cardKey buildDeck)" using d(1) by simp
  have c1: "\<forall>a. count (handKeys ps blind) a \<le> 1"
    unfolding hk using distinct_keys_buildDeck by (simp add: distinct_count_atmost_1)
  have sz: "size (handKeys ps blind) = 32" unfolding hk by (simp add: length_buildDeck)
  from assms(2) dc have s': "players s' = ps" "deck s' = blind" "buried s' = []"
    "currentTrick s' = []" "phase s' = PICKING"
    by (auto simp: startGame_def Let_def split: option.splits)
  have cc: "cardCount s' = 32" unfolding cardCount_alt s' sz d(3) tt by simp
  from assms(1) c1 cc s' d(2) ids show ?thesis by (simp add: cardInv_def)
qed

lemma reach_cardInv: "reach admissible s \<Longrightarrow> cardInv s"
proof (induction rule: reach.induct)
  case init
  show ?case by (simp add: cardInv_def initialState_def handKeys_def)
next
  case (step s a env s')
  show ?case
  proof (cases a)
    case (START_GAME bs)
    with step.hyps(3) have "distinct (map pid bs)" by (simp add: admissible_def)
    moreover from step.hyps(4) START_GAME have "startGame env s bs = Inr s'"
      by (simp add: gameReducer_def)
    ultimately show ?thesis by (rule cardInv_startGame)
  next
    case (PICK_BLIND p)
    with step.hyps(4) have "pickBlind env s p = Inr s'" by (simp add: gameReducer_def)
    with step.IH show ?thesis by (rule cardInv_pickBlind)
  next
    case (PASS_BLIND p)
    with step.hyps(4) have "passBlind env s p = Inr s'" by (simp add: gameReducer_def)
    with step.IH show ?thesis by (rule cardInv_passBlind)
  next
    case (BURY_CARDS p cds)
    with step.hyps(4) have b: "buryCards env s p cds = Inr s'" by (simp add: gameReducer_def)
    from step.hyps(3) BURY_CARDS have adm: "admissible s (BURY_CARDS p cds)" by simp
    from step.IH adm b show ?thesis by (rule cardInv_buryCards)
  next
    case (CALL_PARTNER p q)
    with step.hyps(4) have "callPartner env s p q = Inr s'" by (simp add: gameReducer_def)
    with step.IH show ?thesis by (rule cardInv_callPartner)
  next
    case (PLAY_CARD p cardOpt)
    with step.hyps(3) obtain crd where crd: "cardOpt = Some crd"
      by (cases cardOpt) (simp_all add: admissible_def)
    from step.hyps(4) PLAY_CARD crd have b: "playCard env s p (Some crd) = Inr s'"
      by (simp add: gameReducer_def)
    from step.hyps(3) PLAY_CARD crd have adm: "admissible s (PLAY_CARD p (Some crd))" by simp
    from step.IH adm b show ?thesis by (rule cardInv_playCard)
  qed (use step.hyps(2) in \<open>simp_all add: enabled_def\<close>)
qed

lemma midGame_facts:
  "runOk admissible testEnv initialState (take 12 fullGame)"
  "phase (stateAfter (take 12 fullGame)) = PLAYING"
  by code_simp+

lemma fullGame_admissible: "runOk admissible testEnv initialState fullGame"
  by code_simp

section \<open>Facts about the picking phase\<close>

lemma pushCard_isPicker: "map isPicker (pushCard i c ps) = map isPicker ps"
proof (cases "i < length ps")
  case True
  then show ?thesis by (simp add: pushCard_def map_update_same)
next
  case False
  then have "length ps \<le> i" by simp
  then show ?thesis by (simp add: pushCard_def list_update_beyond)
qed

lemma dealStep_isPicker: "map isPicker (fst (dealStep st p)) = map isPicker (fst st)"
proof -
  obtain ps dk where st: "st = (ps, dk)" by (cases st)
  show ?thesis
    by (cases dk) (simp_all add: st dealStep_def Let_def pushCard_isPicker)
qed

lemma dealInner_isPicker:
  "map isPicker (fst (foldl dealStep st qs)) = map isPicker (fst st)"
  by (induction qs arbitrary: st) (simp_all add: dealStep_isPicker)

lemma dealOuter_isPicker:
  "map isPicker (fst (foldl (\<lambda>st i. foldl dealStep st qs) st is)) = map isPicker (fst st)"
  by (induction "is" arbitrary: st) (simp_all add: dealInner_isPicker)

lemma dealCards_isPicker: "map isPicker (fst (dealCards dk ps)) = map isPicker ps"
proof -
  have "map isPicker (fst (foldl (\<lambda>st i. foldl dealStep st qs) (ps, dk) is))
          = map isPicker (fst (ps, dk))" for qs and "is" :: "nat list"
    by (rule dealOuter_isPicker)
  then show ?thesis unfolding dealCards_def Let_def by (simp only: fst_conv)
qed

lemma list_ex_map_eq:
  assumes "map P xs = map Q ys"
  shows "list_ex P xs = list_ex Q ys"
proof -
  have "list_ex P xs \<longleftrightarrow> True \<in> set (map P xs)" by (auto simp: list_ex_iff)
  also have "\<dots> \<longleftrightarrow> True \<in> set (map Q ys)" by (simp only: assms)
  also have "\<dots> \<longleftrightarrow> list_ex Q ys" by (auto simp: list_ex_iff)
  finally show ?thesis .
qed

lemma at_mem: "at xs i = Some x \<Longrightarrow> x \<in> set xs"
  by (auto simp: at_def split: if_splits)

lemma atIdx_mem: "atIdx xs io = Some x \<Longrightarrow> x \<in> set xs"
  by (cases io) (auto simp: atIdx_def dest: at_mem)

lemma pickingInv_startGame:
  assumes "\<not> list_ex isPicker bs" and "startGame env s bs = Inr s'"
  shows "pickingInv s'"
proof -
  let ?dk = "initializeDeck (envRnd env)"
  obtain ps blind where dc: "dealCards ?dk (initPlayers bs) = (ps, blind)"
    by (cases "dealCards ?dk (initPlayers bs)")
  from dealCards_isPicker [of ?dk "initPlayers bs"] dc
  have "map isPicker ps = map isPicker (initPlayers bs)" by simp
  also have "\<dots> = map isPicker bs"
    by (simp add: initPlayers_def map_mapIdx mapIdx_const)
  finally have "list_ex isPicker ps = list_ex isPicker bs" by (rule list_ex_map_eq)
  with assms(1) have np: "\<not> list_ex isPicker ps" by simp
  from assms(2) dc obtain sp where sp: "sp \<in> set ps" "players s' = ps" "currentTurn s' = pid sp"
    by (auto simp: startGame_def Let_def split: option.splits dest: atIdx_mem)
  from sp np show ?thesis by (auto simp: pickingInv_def list_ex_iff)
qed

lemma passBlind_picking:
  assumes "passBlind env s p = Inr s'"
  shows "s' = s
       \<or> (phase s = PICKING \<and> players s' = players s
          \<and> (\<exists>np\<in>set (players s). currentTurn s' = pid np))"
  using assms
  by (auto simp: passBlind_def Let_def split: if_splits option.splits dest: atIdx_mem)

lemma playCard_phase:
  assumes "playCard env s p cardOpt = Inr s'"
  shows "s' = s \<or> phase s' = PLAYING \<or> phase s' = SCORING"
proof (cases cardOpt)
  case None
  with assms show ?thesis by (simp add: playCard_undefined)
next
  case (Some crd)
  with assms have "playCard env s p (Some crd) = Inr s'" by simp
  from playCard_cases [OF this] show ?thesis by auto
qed

lemma reach_pickingInv: "reach plainRoster s \<Longrightarrow> pickingInv s"
proof (induction rule: reach.induct)
  case init
  show ?case by (simp add: pickingInv_def initialState_def)
next
  case (step s a env s')
  show ?case
  proof (cases a)
    case (START_GAME bs)
    with step.hyps(3) have "\<not> list_ex isPicker bs" by (simp add: plainRoster_def)
    moreover from step.hyps(4) START_GAME have "startGame env s bs = Inr s'"
      by (simp add: gameReducer_def)
    ultimately show ?thesis by (rule pickingInv_startGame)
  next
    case (PICK_BLIND p)
    with step.hyps(4) have "pickBlind env s p = Inr s'" by (simp add: gameReducer_def)
    from pickBlind_frame [OF this] step.IH show ?thesis by (auto simp: pickingInv_def)
  next
    case (PASS_BLIND p)
    with step.hyps(4) have "passBlind env s p = Inr s'" by (simp add: gameReducer_def)
    from passBlind_picking [OF this] step.IH show ?thesis
      by (auto simp: pickingInv_def list_ex_iff)
  next
    case (BURY_CARDS p cds)
    with step.hyps(4) have "buryCards env s p cds = Inr s'" by (simp add: gameReducer_def)
    from buryCards_frame [OF this] step.IH show ?thesis by (auto simp: pickingInv_def)
  next
    case (CALL_PARTNER p q)
    with step.hyps(4) have "callPartner env s p q = Inr s'" by (simp add: gameReducer_def)
    from callPartner_frame [OF this] step.IH show ?thesis by (auto simp: pickingInv_def)
  next
    case (PLAY_CARD p cardOpt)
    with step.hyps(4) have "playCard env s p cardOpt = Inr s'" by (simp add: gameReducer_def)
    from playCard_phase [OF this] step.IH show ?thesis by (auto simp: pickingInv_def)
  qed (use step.hyps(2) in \<open>simp_all add: enabled_def\<close>)
qed

lemma passRun_facts:
  "runOk plainRoster testEnv initialState passRun"
  "phase (stateAfter passRun) = PICKING"
  "currentTurn (stateAfter passRun) = ''ai-player-2''"
  "findIndex (\<lambda>p. pid p = ''ai-player-2'') (players (stateAfter passRun)) = 2"
  "length (players (stateAfter passRun)) = 3"
  "findIndex isDealer (players (stateAfter passRun)) = 0"
  "pid (players (stateAfter passRun) ! 0) = ''human-player''"
  by code_simp+

section \<open>Rejected actions (C2)\<close>




section \<open>The card count (C3)\<close>

text \<open>
  C3, as stated, fails in two ways. First, scoring a round clears the hands and the won
  tricks: after the complete round \<open>fullGame\<close>, in which every card is played from the
  hand of the player to act, the phase is \<open>SCORING\<close> and only the two buried cards are
  left to count. Second, the reducer accepts cards that are not in the actor's hand: when
  the picker buries the eight and the jack of clubs, which another player holds, the count
  rises from 32 to 34.
\<close>

theorem cardCount_not_invariant:
  "runOk admissible testEnv initialState fullGame
   \<and> (case dispatchAll testEnv initialState fullGame of
        Inl e \<Rightarrow> False
      | Inr s \<Rightarrow> phase s = SCORING \<and> cardCount s = 2)
   \<and> (case dispatchAll testEnv initialState
               [START_GAME (handleStartGame ''You'' 3), PICK_BLIND ''ai-player-1''] of
        Inl e \<Rightarrow> False
      | Inr s \<Rightarrow>
          cardCount s = 32
          \<and> (case gameReducer testEnv s
                     (BURY_CARDS ''ai-player-1'' [mkCard CLUBS EIGHT, mkCard CLUBS JACK]) of
                Inl e \<Rightarrow> False
              | Inr s' \<Rightarrow> phase s' = PLAYING \<and> cardCount s' = 34))"
proof -
  have a: "case dispatchAll testEnv initialState fullGame of
        Inl e \<Rightarrow> False
      | Inr s \<Rightarrow> phase s = SCORING \<and> cardCount s = 2"
    using fullGame_final by (cases "dispatchAll testEnv initialState fullGame") simp_all
  have b: "case dispatchAll testEnv initialState
               [START_GAME (handleStartGame ''You'' 3), PICK_BLIND ''ai-player-1''] of
        Inl e \<Rightarrow> False
      | Inr s \<Rightarrow>
          cardCount s = 32
          \<and> (case gameReducer testEnv s
                     (BURY_CARDS ''ai-player-1'' [mkCard CLUBS EIGHT, mkCard CLUBS JACK]) of
                Inl e \<Rightarrow> False
              | Inr s' \<Rightarrow> phase s' = PLAYING \<and> cardCount s' = 34)"
    by code_simp
  from fullGame_admissible a b show ?thesis by blast
qed

text \<open>
  C3, amended: in every state reached from the initial state by \<open>START_GAME\<close> with a roster
  of pairwise distinct ids and by player actions that take their cards from the hand (the
  two buried cards are two different cards of the picker's hand, a played card is in the
  actor's hand), the hands, the blind, the buried pile, the current trick and the won
  tricks hold 32 cards together from the deal until the round is scored; once the phase
  is \<open>SCORING\<close>, hands and won tricks are empty and the count is that of the blind and the
  buried pile.
\<close>

theorem cardCount_during_round:
  assumes "reach admissible s"
  shows "(phase s \<noteq> GAME_OVER \<and> phase s \<noteq> SCORING \<longrightarrow> cardCount s = 32)
         \<and> (phase s = SCORING \<longrightarrow> cardCount s = length (deck s) + length (buried s))"
  using reach_cardInv [OF assms] by (simp add: cardInv_def)

theorem cardCount_during_round_witness:
  "reach admissible (stateAfter (take 12 fullGame))
   \<and> phase (stateAfter (take 12 fullGame)) = PLAYING
   \<and> cardCount (stateAfter (take 12 fullGame)) = 32"
proof -
  have r: "reach admissible (stateAfter (take 12 fullGame))"
    using midGame_facts(1) by (rule reach_stateAfter)
  from cardCount_during_round [OF r] r midGame_facts(2) show ?thesis by simp
qed

section \<open>Passing the blind (C4)\<close>

text \<open>
  C4, as stated, fails in its last part. At a three-player table \<open>human-player\<close> deals;
  \<open>ai-player-1\<close> and \<open>ai-player-2\<close> pass. The seat after \<open>ai-player-2\<close> is the
  dealer's, so the round becomes a leaster in phase \<open>PLAYING\<close>, and the turn is set to
  that next seat, the dealer \<open>human-player\<close>, not to the seat after the dealer,
  \<open>ai-player-1\<close>.
\<close>

theorem passBlind_leaster_turn_is_dealer:
  "(case dispatchAll testEnv initialState
           [START_GAME (handleStartGame ''You'' 3), PASS_BLIND ''ai-player-1'',
            PASS_BLIND ''ai-player-2''] of
      Inl e \<Rightarrow> False
    | Inr s \<Rightarrow>
        phase s = PLAYING \<and> isLeaster s
        \<and> map pid (players s) = [''human-player'', ''ai-player-1'', ''ai-player-2'']
        \<and> map isDealer (players s) = [True, False, False]
        \<and> map isPicker (players s) = [False, False, False]
        \<and> currentTurn s = ''human-player'' \<and> currentTurn s \<noteq> ''ai-player-1'')"
  by code_simp

text \<open>
  C4, amended: in every state in the \<open>PICKING\<close> phase that is reachable from the initial
  state by \<open>START_GAME\<close> with a roster that flags no entry as picker (as the rosters of
  the setup screen) and by the player actions, the player-to-act is one of the players,
  and a pass by the player-to-act never throws and moves the turn to the next seat. When
  that next seat is the dealer's, the phase becomes \<open>PLAYING\<close> with \<open>isLeaster = true\<close>,
  no player has \<open>isPicker = true\<close>, and the turn is on the dealer's seat (the next seat
  itself, not the seat after the dealer); otherwise the phase stays \<open>PICKING\<close>, the
  leaster flag is unchanged and still no player is picker.
\<close>

theorem passBlind_turn:
  assumes "reach plainRoster s" and "phase s = PICKING"
    and "seat = findIndex (\<lambda>p. pid p = currentTurn s) (players s)"
    and "nxt = (seat + 1) mod int (length (players s))"
  shows "0 \<le> seat \<and> pid (players s ! nat seat) = currentTurn s
         \<and> (\<exists>s'. gameReducer env s (PASS_BLIND (currentTurn s)) = Inr s'
                \<and> currentTurn s' = pid (players s ! nat nxt)
                \<and> players s' = players s
                \<and> \<not> list_ex isPicker (players s')
                \<and> (if nxt = findIndex isDealer (players s)
                    then phase s' = PLAYING \<and> isLeaster s' \<and> isDealer (players s ! nat nxt)
                    else phase s' = PICKING \<and> isLeaster s' = isLeaster s))"
proof -
  let ?k = "findIndex (\<lambda>p. pid p = currentTurn s) (players s)"
  from reach_pickingInv [OF assms(1)] assms(2)
  have np: "\<not> list_ex isPicker (players s)"
    and turn: "list_ex (\<lambda>p. pid p = currentTurn s) (players s)"
    by (simp_all add: pickingInv_def)
  from turn have found: "?k \<noteq> - 1" by (simp add: findIndex_none_iff list_ex_iff)
  have k: "- 1 \<le> ?k" by (rule findIndex_ge)
  with found have k0: "0 \<le> seat" unfolding assms(3) by linarith
  from findIndex_nth [OF found] have id: "pid (players s ! nat seat) = currentTurn s"
    unfolding assms(3) .
  from turn have ne: "players s \<noteq> []" by (auto simp: list_ex_iff)
  have j: "jsRem (?k + 1) (int (length (players s))) = Some nxt"
    unfolding assms(4) assms(3) by (rule nextSeat(1) [OF ne k])
  have a: "atIdx (players s) (Some nxt) = Some (players s ! nat nxt)"
    unfolding assms(4) assms(3) by (rule nextSeat(3) [OF ne k])
  have nx0: "0 \<le> nxt" unfolding assms(4) using ne by simp
  have "\<exists>s'. gameReducer env s (PASS_BLIND (currentTurn s)) = Inr s'
                \<and> currentTurn s' = pid (players s ! nat nxt)
                \<and> players s' = players s
                \<and> \<not> list_ex isPicker (players s')
                \<and> (if nxt = findIndex isDealer (players s)
                    then phase s' = PLAYING \<and> isLeaster s' \<and> isDealer (players s ! nat nxt)
                    else phase s' = PICKING \<and> isLeaster s' = isLeaster s)"
  proof (cases "nxt = findIndex isDealer (players s)")
    case True
    from a True have a': "atIdx (players s) (Some (findIndex isDealer (players s)))
        = Some (players s ! nat (findIndex isDealer (players s)))" by simp
    from j True have j': "jsRem (?k + 1) (int (length (players s)))
        = Some (findIndex isDealer (players s))" by simp
    from True nx0 have "findIndex isDealer (players s) \<noteq> - 1" by linarith
    from findIndex_nth [OF this]
    have dl: "isDealer (players s ! nat (findIndex isDealer (players s)))" .
    show ?thesis
      using assms(2) True np dl by (simp add: gameReducer_def passBlind_def j' a' Let_def)
  next
    case False
    show ?thesis
      using assms(2) False np by (simp add: gameReducer_def passBlind_def j a Let_def)
  qed
  with k0 id show ?thesis by blast
qed

theorem passBlind_turn_witness:
  "reach plainRoster (stateAfter passRun) \<and> phase (stateAfter passRun) = PICKING
   \<and> currentTurn (stateAfter passRun) = ''ai-player-2''
   \<and> findIndex isDealer (players (stateAfter passRun)) = 0
   \<and> (\<exists>s'. gameReducer testEnv (stateAfter passRun) (PASS_BLIND ''ai-player-2'') = Inr s'
          \<and> currentTurn s' = ''human-player'' \<and> players s' = players (stateAfter passRun)
          \<and> \<not> list_ex isPicker (players s') \<and> phase s' = PLAYING \<and> isLeaster s')
   \<and> isDealer (players (stateAfter passRun) ! 0)"
proof -
  note f = passRun_facts
  have r: "reach plainRoster (stateAfter passRun)" using f(1) by (rule reach_stateAfter)
  have seat: "(2::int) = findIndex (\<lambda>p. pid p = currentTurn (stateAfter passRun))
                           (players (stateAfter passRun))"
    by (simp add: f(3) f(4))
  have nxt: "(0::int) = (2 + 1) mod int (length (players (stateAfter passRun)))"
    by (simp add: f(5))
  from passBlind_turn [OF r f(2) seat nxt, of testEnv]
  have "(\<exists>s'. gameReducer testEnv (stateAfter passRun) (PASS_BLIND ''ai-player-2'') = Inr s'
          \<and> currentTurn s' = ''human-player'' \<and> players s' = players (stateAfter passRun)
          \<and> \<not> list_ex isPicker (players s') \<and> phase s' = PLAYING \<and> isLeaster s')
        \<and> isDealer (players (stateAfter passRun) ! 0)"
    by (auto simp: f(3) f(6) f(7))
  with r f(2) f(3) f(6) show ?thesis by blast
qed

section \<open>Team scores (C5)\<close>

text \<open>
  C5: the picker team is made of every player flagged as picker and of the player whose
  id the picker (the first player so flagged) has called as partner; everyone else
  defends. \<open>calculateGameScore\<close> gives the picker team the card points of its members' won
  tricks plus those of the buried cards, and the defenders the card points of everyone
  else's tricks; the picker team is the winner exactly when its total, buried cards
  included, is at least 61. In particular, with five players, two buried cards that count
  nothing, no trick won by a defender, and the won tricks and buried cards together making
  up the 32-card deck, the picker team has 120 and the defenders 0.
\<close>

theorem calculateGameScore_teams:
  "pickerTeamScore (calculateGameScore gs) =
      (\<Sum>p\<leftarrow>filter (\<lambda>p. isPicker p
                         \<or> (case List.find isPicker (players gs) of
                               None \<Rightarrow> False | Some pk \<Rightarrow> partner pk = Some (pid p)))
                    (players gs).
         \<Sum>t\<leftarrow>tricksWon p. \<Sum>c\<leftarrow>t. cvalue c)
      + (\<Sum>c\<leftarrow>buried gs. cvalue c)
   \<and> defenderTeamScore (calculateGameScore gs) =
      (\<Sum>p\<leftarrow>filter (\<lambda>p. \<not> (isPicker p
                            \<or> (case List.find isPicker (players gs) of
                                  None \<Rightarrow> False | Some pk \<Rightarrow> partner pk = Some (pid p))))
                    (players gs).
         \<Sum>t\<leftarrow>tricksWon p. \<Sum>c\<leftarrow>t. cvalue c)
   \<and> isPicKerTeamWinner (calculateGameScore gs) = (61 \<le> pickerTeamScore (calculateGameScore gs))
   \<and> (length (players gs) = 5 \<and> length (buried gs) = 2
        \<and> (\<forall>c\<in>set (buried gs). cvalue c = 0)
        \<and> (\<forall>p\<in>set (players gs).
              isPicker p
              \<or> (case List.find isPicker (players gs) of
                    None \<Rightarrow> False | Some pk \<Rightarrow> partner pk = Some (pid p))
              \<or> tricksWon p = [])
        \<and> mset (concat (concat (map tricksWon (players gs))) @ buried gs) = mset buildDeck
      \<longrightarrow> pickerTeamScore (calculateGameScore gs) = 120
          \<and> defenderTeamScore (calculateGameScore gs) = 0
          \<and> isPicKerTeamWinner (calculateGameScore gs))"
proof -
  let ?P = "\<lambda>p. isPicker p
                 \<or> (case List.find isPicker (players gs) of
                       None \<Rightarrow> False | Some pk \<Rightarrow> partner pk = Some (pid p))"
  let ?sc = "calculateGameScore gs"
  have team: "(isPicker p \<or> Some (pid p) = pickerPartner (players gs)) = ?P p" for p
    by (auto simp: pickerPartner_def split: option.splits)
  have cp: "calculatePoints = (\<lambda>t. \<Sum>c\<leftarrow>t. cvalue c)"
    by (rule ext) (rule calculatePoints_sum)
  have pp: "playerPoints p = (\<Sum>t\<leftarrow>tricksWon p. \<Sum>c\<leftarrow>t. cvalue c)" for p
    by (simp add: playerPoints_sum cp)
  have teams: "identifyTeams (players gs)
                 = (filter ?P (players gs), filter (\<lambda>p. \<not> ?P p) (players gs))"
    by (simp only: identifyTeams_filter team)
  have a: "pickerTeamScore ?sc =
      sum_list (map playerPoints (filter ?P (players gs))) + sum_list (map cvalue (buried gs))"
    by (cases "buried gs")
       (simp_all add: calculateGameScore_def teams sumTricks_sum Let_def calculatePoints_sum)
  have b: "defenderTeamScore ?sc = sum_list (map playerPoints (filter (\<lambda>p. \<not> ?P p) (players gs)))"
    by (simp add: calculateGameScore_def teams sumTricks_sum Let_def)
  have c: "isPicKerTeamWinner ?sc = (61 \<le> pickerTeamScore ?sc)"
    by (simp add: calculateGameScore_def teams Let_def)
  have d: "pickerTeamScore ?sc = 120 \<and> defenderTeamScore ?sc = 0 \<and> isPicKerTeamWinner ?sc"
    if h: "length (players gs) = 5 \<and> length (buried gs) = 2
        \<and> (\<forall>c\<in>set (buried gs). cvalue c = 0)
        \<and> (\<forall>p\<in>set (players gs). ?P p \<or> tricksWon p = [])
        \<and> mset (concat (concat (map tricksWon (players gs))) @ buried gs) = mset buildDeck"
  proof -
    from h have "\<forall>p\<in>set (filter (\<lambda>p. \<not> ?P p) (players gs)). playerPoints p = 0"
      by (auto simp: playerPoints_def)
    then have "sum_list (map playerPoints (filter (\<lambda>p. \<not> ?P p) (players gs))) = 0"
      by (rule sum_list_all_zero)
    then have d0: "defenderTeamScore ?sc = 0" and
      pt: "sum_list (map playerPoints (filter ?P (players gs)))
            = sum_list (map playerPoints (players gs))"
      using b sum_list_filter_split [of playerPoints ?P "players gs"] by simp_all
    from h have "sum_list (map cvalue (concat (concat (map tricksWon (players gs))) @ buried gs))
                   = sum_list (map cvalue buildDeck)"
      by (intro sum_list_cvalue_mset) blast
    then have "sum_list (map playerPoints (players gs)) + sum_list (map cvalue (buried gs)) = 120"
      by (simp add: playerPoints_concat buildDeck_points)
    with a pt have "pickerTeamScore ?sc = 120" by simp
    with d0 c show ?thesis by simp
  qed
  have a': "pickerTeamScore ?sc =
      (\<Sum>p\<leftarrow>filter ?P (players gs). \<Sum>t\<leftarrow>tricksWon p. \<Sum>c\<leftarrow>t. cvalue c)
      + (\<Sum>c\<leftarrow>buried gs. cvalue c)"
    using a by (simp add: pp [abs_def])
  have b': "defenderTeamScore ?sc =
      (\<Sum>p\<leftarrow>filter (\<lambda>p. \<not> ?P p) (players gs). \<Sum>t\<leftarrow>tricksWon p. \<Sum>c\<leftarrow>t. cvalue c)"
    using b by (simp add: pp [abs_def])
  from a' b' c d show ?thesis by blast
qed

theorem calculateGameScore_teams_witness:
  "length (players sweep5) = 5 \<and> length (buried sweep5) = 2
   \<and> list_all (\<lambda>c. cvalue c = 0) (buried sweep5)
   \<and> list_all (\<lambda>p. isPicker p
                    \<or> (case List.find isPicker (players sweep5) of
                          None \<Rightarrow> False | Some pk \<Rightarrow> partner pk = Some (pid p))
                    \<or> tricksWon p = []) (players sweep5)
   \<and> mset (concat (concat (map tricksWon (players sweep5))) @ buried sweep5) = mset buildDeck
   \<and> map isPicker (players sweep5) = [False, True, False, False, False]
   \<and> partner (players sweep5 ! 1) = Some (pid (players sweep5 ! 2))
   \<and> length (tricksWon (players sweep5 ! 2)) = 2
   \<and> (\<Sum>t\<leftarrow>tricksWon (players sweep5 ! 2). \<Sum>c\<leftarrow>t. cvalue c) = 45
   \<and> pickerTeamScore (calculateGameScore sweep5) = 120
   \<and> defenderTeamScore (calculateGameScore sweep5) = 0
   \<and> isPicKerTeamWinner (calculateGameScore sweep5)"
proof -
  note f = sweep5_facts
  have z: "\<forall>c\<in>set (buried sweep5). cvalue c = 0"
    using f(3) by (simp add: list_all_iff)
  have e: "\<forall>p\<in>set (players sweep5).
             isPicker p
             \<or> (case List.find isPicker (players sweep5) of
                   None \<Rightarrow> False | Some pk \<Rightarrow> partner pk = Some (pid p))
             \<or> tricksWon p = []"
    using f(4) by (simp add: list_all_iff)
  have "mset (drop 2 buildDeck @ take 2 buildDeck) = mset buildDeck"
    by (metis append_take_drop_id mset_append union_commute)
  then have m: "mset (concat (concat (map tricksWon (players sweep5))) @ buried sweep5)
                 = mset buildDeck"
    by (simp only: f(5) f(6))
  from calculateGameScore_teams [of sweep5] f(1) f(2) z e m
  have r: "pickerTeamScore (calculateGameScore sweep5) = 120
          \<and> defenderTeamScore (calculateGameScore sweep5) = 0
          \<and> isPicKerTeamWinner (calculateGameScore sweep5)" by blast
  have p1: "partner (players sweep5 ! 1) = Some (pid (players sweep5 ! 2))"
    using f(8) by simp
  from r f(1) f(2) f(3) f(4) m f(7) p1 f(9) f(10) show ?thesis by blast
qed

section \<open>Round scoring (C6, C10)\<close>

text \<open>
  C6, as stated, fails: the members of the losing team are not credited. In the complete
  round \<open>fullGame\<close> the picker \<open>ai-player-1\<close> plays alone (three players, no partner) and
  ends with 27 points, buried cards included, against 93 for the defenders, as the
  \<open>ROUND_COMPLETED\<close> event records. After the last trick the phase is \<open>SCORING\<close>, both
  defenders have gained 93, and the picker's score is still 0, not 27.
\<close>

theorem losing_team_not_credited:
  "(case dispatchAll testEnv initialState (take 3 fullGame) of
      Inl e \<Rightarrow> False
    | Inr s \<Rightarrow> map isPicker (players s) = [False, True, False] \<and> phase s = PLAYING)
   \<and> (case dispatchAll testEnv initialState fullGame of
        Inl e \<Rightarrow> False
      | Inr s \<Rightarrow>
          phase s = SCORING
          \<and> evData (last (log s)) = Some (DataRound 1 27 93 False)
          \<and> map pid (players s) = [''human-player'', ''ai-player-1'', ''ai-player-2'']
          \<and> map score (players s) = [93, 0, 93])"
proof -
  have a: "case dispatchAll testEnv initialState (take 3 fullGame) of
      Inl e \<Rightarrow> False
    | Inr s \<Rightarrow> map isPicker (players s) = [False, True, False] \<and> phase s = PLAYING"
    by code_simp
  have b: "case dispatchAll testEnv initialState fullGame of
        Inl e \<Rightarrow> False
      | Inr s \<Rightarrow>
          phase s = SCORING
          \<and> evData (last (log s)) = Some (DataRound 1 27 93 False)
          \<and> map pid (players s) = [''human-player'', ''ai-player-1'', ''ai-player-2'']
          \<and> map score (players s) = [93, 0, 93]"
    using fullGame_final by (cases "dispatchAll testEnv initialState fullGame") simp_all
  from a b show ?thesis by (rule conjI)
qed

text \<open>
  C6, amended. When the last trick resolves (\<open>END_TRICK\<close> on a complete trick with the hand
  of the first player empty), the trick is awarded and \<open>END_ROUND\<close> runs on the resulting
  state. \<open>END_ROUND\<close>, with at least one player, never throws and: in a round with a picker
  that is not a leaster, only the members of the winning team (the picker and the called
  partner if the picker team has at least 61 points, buried cards included, otherwise
  everyone else) gain their team's point total, and the losers' scores are unchanged; in
  a leaster a player gains the leaster maximum exactly when their id is the leaster
  winner's; with neither picker nor leaster no score changes. The dealer flag moves to
  the next seat, hands, won tricks, picker flags and partners are cleared, and the phase
  becomes \<open>SCORING\<close>.
\<close>

theorem round_end_scoring:
  assumes "players s \<noteq> []" and "i < length (players s)"
  shows "(length (currentTrick s) = length (players s) \<and> cards (hd (players s)) = [] \<longrightarrow>
            (\<exists>w\<in>set (players s).
               determineTrickWinner (currentTrick s)
                 (case leadSuit s of None \<Rightarrow> CLUBS | Some l \<Rightarrow> l) (players s) = Inr (pid w)
               \<and> gameReducer env s END_TRICK
                   = gameReducer env (trickAwarded env s (pid w)) END_ROUND))
       \<and> (\<exists>s'. gameReducer env s END_ROUND = Inr s'
              \<and> phase s' = SCORING \<and> length (players s') = length (players s)
              \<and> pid (players s' ! i) = pid (players s ! i)
              \<and> cards (players s' ! i) = [] \<and> tricksWon (players s' ! i) = []
              \<and> \<not> isPicker (players s' ! i) \<and> partner (players s' ! i) = None
              \<and> isDealer (players s' ! i)
                  = (int i = (findIndex isDealer (players s) + 1) mod int (length (players s)))
              \<and> score (players s' ! i) = score (players s ! i)
                  + (case (isLeaster s, List.find isPicker (players s)) of
                       (True, _) \<Rightarrow>
                         (if pid (players s ! i) = snd (leasterWinner (players s))
                          then fst (leasterWinner (players s)) else 0)
                     | (False, None) \<Rightarrow> 0
                     | (False, Some pk) \<Rightarrow>
                         (let onPickerTeam = (isPicker (players s ! i)
                                               \<or> Some (pid (players s ! i)) = partner pk);
                              sc = calculateGameScore s
                          in if onPickerTeam \<and> isPicKerTeamWinner sc then pickerTeamScore sc
                             else if \<not> onPickerTeam \<and> \<not> isPicKerTeamWinner sc
                             then defenderTeamScore sc
                             else 0)))"
proof -
  have sc: "score (scorePlayer s p) = score p
                  + (case (isLeaster s, List.find isPicker (players s)) of
                       (True, _) \<Rightarrow>
                         (if pid p = snd (leasterWinner (players s))
                          then fst (leasterWinner (players s)) else 0)
                     | (False, None) \<Rightarrow> 0
                     | (False, Some pk) \<Rightarrow>
                         (let onPickerTeam = (isPicker p \<or> Some (pid p) = partner pk);
                              sc = calculateGameScore s
                          in if onPickerTeam \<and> isPicKerTeamWinner sc then pickerTeamScore sc
                             else if \<not> onPickerTeam \<and> \<not> isPicKerTeamWinner sc
                             then defenderTeamScore sc
                             else 0))" for p
    by (cases "isLeaster s"; cases "List.find isPicker (players s)")
       (auto simp: scorePlayer_def Let_def split: prod.splits)
  have part2: "\<exists>s'. gameReducer env s END_ROUND = Inr s'
              \<and> phase s' = SCORING \<and> length (players s') = length (players s)
              \<and> pid (players s' ! i) = pid (players s ! i)
              \<and> cards (players s' ! i) = [] \<and> tricksWon (players s' ! i) = []
              \<and> \<not> isPicker (players s' ! i) \<and> partner (players s' ! i) = None
              \<and> isDealer (players s' ! i)
                  = (int i = (findIndex isDealer (players s) + 1) mod int (length (players s)))
              \<and> score (players s' ! i) = score (scorePlayer s (players s ! i))"
    using assms(2) by (simp add: gameReducer_def endRound_Inr [OF assms(1)])
  have part1: "length (currentTrick s) = length (players s) \<and> cards (hd (players s)) = [] \<longrightarrow>
            (\<exists>w\<in>set (players s).
               determineTrickWinner (currentTrick s)
                 (case leadSuit s of None \<Rightarrow> CLUBS | Some l \<Rightarrow> l) (players s) = Inr (pid w)
               \<and> gameReducer env s END_TRICK
                   = gameReducer env (trickAwarded env s (pid w)) END_ROUND)"
  proof
    assume h: "length (currentTrick s) = length (players s) \<and> cards (hd (players s)) = []"
    from endTrick_cascade [OF assms(1), of env] h show "\<exists>w\<in>set (players s).
               determineTrickWinner (currentTrick s)
                 (case leadSuit s of None \<Rightarrow> CLUBS | Some l \<Rightarrow> l) (players s) = Inr (pid w)
               \<and> gameReducer env s END_TRICK
                   = gameReducer env (trickAwarded env s (pid w)) END_ROUND"
      by (auto simp: gameReducer_def)
  qed
  from part2 sc [of "players s ! i"] have part2': "\<exists>s'. gameReducer env s END_ROUND = Inr s'
              \<and> phase s' = SCORING \<and> length (players s') = length (players s)
              \<and> pid (players s' ! i) = pid (players s ! i)
              \<and> cards (players s' ! i) = [] \<and> tricksWon (players s' ! i) = []
              \<and> \<not> isPicker (players s' ! i) \<and> partner (players s' ! i) = None
              \<and> isDealer (players s' ! i)
                  = (int i = (findIndex isDealer (players s) + 1) mod int (length (players s)))
              \<and> score (players s' ! i) = score (players s ! i)
                  + (case (isLeaster s, List.find isPicker (players s)) of
                       (True, _) \<Rightarrow>
                         (if pid (players s ! i) = snd (leasterWinner (players s))
                          then fst (leasterWinner (players s)) else 0)
                     | (False, None) \<Rightarrow> 0
                     | (False, Some pk) \<Rightarrow>
                         (let onPickerTeam = (isPicker (players s ! i)
                                               \<or> Some (pid (players s ! i)) = partner pk);
                              sc = calculateGameScore s
                          in if onPickerTeam \<and> isPicKerTeamWinner sc then pickerTeamScore sc
                             else if \<not> onPickerTeam \<and> \<not> isPicKerTeamWinner sc
                             then defenderTeamScore sc
                             else 0))"
    by simp
  from part1 part2' show ?thesis by (rule conjI)
qed

theorem round_end_scoring_witness:
  "players lastTrick \<noteq> [] \<and> 1 < length (players lastTrick)
   \<and> length (currentTrick lastTrick) = length (players lastTrick)
   \<and> cards (hd (players lastTrick)) = []
   \<and> (\<exists>w\<in>set (players lastTrick).
         gameReducer testEnv lastTrick END_TRICK
           = gameReducer testEnv (trickAwarded testEnv lastTrick (pid w)) END_ROUND)
   \<and> (\<exists>s'. gameReducer testEnv lastTrick END_ROUND = Inr s' \<and> phase s' = SCORING
          \<and> cards (players s' ! 1) = [] \<and> \<not> isPicker (players s' ! 1))"
proof -
  note f = lastTrick_facts
  have i1: "1 < length (players lastTrick)" by (simp add: f(2))
  from round_end_scoring [OF f(1) i1, of testEnv] f i1 show ?thesis
    by (simp only: simp_thms) blast
qed

text \<open>
  C10: in a leaster, with player ids that are pairwise distinct, \<open>END_ROUND\<close> adds to the
  score of player \<open>i\<close> their own trick-point total exactly when that total is positive,
  no player has more, and no player earlier in the list has as much; every other score is
  unchanged. So among tied leaders only the earliest gains, and when no total is positive
  (all zero) no score changes.
\<close>

theorem leaster_scoring:
  assumes "isLeaster s" and "distinct (map pid (players s))" and "i < length (players s)"
  shows "\<exists>s'. gameReducer env s END_ROUND = Inr s'
           \<and> length (players s') = length (players s)
           \<and> score (players s' ! i) =
               score (players s ! i)
               + (if 0 < playerPoints (players s ! i)
                     \<and> (\<forall>j<length (players s).
                            playerPoints (players s ! j) \<le> playerPoints (players s ! i))
                     \<and> (\<forall>j<i. playerPoints (players s ! j) < playerPoints (players s ! i))
                  then playerPoints (players s ! i) else 0)"
proof -
  let ?ps = "players s"
  let ?p = "?ps ! i"
  from assms(3) have ne: "?ps \<noteq> []" by auto
  obtain m' w' where lw: "leasterWinner ?ps = (m', w')" by (cases "leasterWinner ?ps")
  from leasterWinner_gen [OF lw [unfolded leasterWinner_def]]
  have m0: "0 \<le> m'" and ub: "\<forall>p\<in>set ?ps. playerPoints p \<le> m'"
    and sp: "if m' = 0 then w' = []
             else \<exists>ys p zs. ?ps = ys @ p # zs \<and> playerPoints p = m' \<and> pid p = w'
                    \<and> (\<forall>q\<in>set ys. playerPoints q < m')"
    by blast+
  have sc: "score (scorePlayer s ?p) = score ?p + (if pid ?p = w' then m' else 0)"
    using assms(1) lw by (simp add: scorePlayer_def Let_def)
  let ?win = "0 < playerPoints ?p
              \<and> (\<forall>j<length ?ps. playerPoints (?ps ! j) \<le> playerPoints ?p)
              \<and> (\<forall>j<i. playerPoints (?ps ! j) < playerPoints ?p)"
  have key: "(if pid ?p = w' then m' else 0) = (if ?win then playerPoints ?p else 0)"
  proof (cases "m' = 0")
    case True
    have "playerPoints ?p \<le> 0" using ub assms(3) True by auto
    then show ?thesis using True by auto
  next
    case False
    with sp obtain ys q zs where s: "?ps = ys @ q # zs" "playerPoints q = m'" "pid q = w'"
        "\<forall>r\<in>set ys. playerPoints r < m'" by auto
    let ?k = "length ys"
    have kl: "?k < length ?ps" using s(1) by simp
    have kq: "?ps ! ?k = q" using s(1) by simp
    have early: "\<forall>j<?k. playerPoints (?ps ! j) < m'"
    proof (intro allI impI)
      fix j assume "j < ?k"
      then have "?ps ! j = ys ! j" using s(1) by (simp add: nth_append)
      with \<open>j < ?k\<close> s(4) show "playerPoints (?ps ! j) < m'" by simp
    qed
    have ideq: "pid ?p = w' \<longleftrightarrow> i = ?k"
    proof
      assume "pid ?p = w'"
      with s(3) kq have "map pid ?ps ! i = map pid ?ps ! ?k" using assms(3) kl by simp
      then show "i = ?k"
        using nth_eq_iff_index_eq [of "map pid ?ps" i ?k] assms(2,3) kl by simp
    next
      assume "i = ?k"
      then show "pid ?p = w'" using kq s(3) by simp
    qed
    show ?thesis
    proof (cases "i = ?k")
      case True
      have pm: "playerPoints ?p = m'" using True kq s(2) by simp
      have "?win"
      proof (intro conjI allI impI)
        show "0 < playerPoints ?p" using pm m0 False by linarith
      next
        fix j assume "j < length ?ps"
        then show "playerPoints (?ps ! j) \<le> playerPoints ?p" using ub pm by auto
      next
        fix j assume "j < i"
        then show "playerPoints (?ps ! j) < playerPoints ?p" using early True pm by auto
      qed
      then show ?thesis using True ideq pm by simp
    next
      case ik: False
      have "\<not> ?win"
      proof
        assume w: "?win"
        then have "playerPoints (?ps ! ?k) \<le> playerPoints ?p" using kl by blast
        with kq s(2) have ge: "m' \<le> playerPoints ?p" by simp
        show False
        proof (cases "i < ?k")
          case True
          with early have "playerPoints ?p < m'" by blast
          with ge show False by linarith
        next
          case False
          with ik have "?k < i" by linarith
          with w have "playerPoints (?ps ! ?k) < playerPoints ?p" by blast
          with kq s(2) have "m' < playerPoints ?p" by simp
          moreover have "playerPoints ?p \<le> m'" using ub assms(3) by auto
          ultimately show False by linarith
        qed
      qed
      then show ?thesis using ik ideq by simp
    qed
  qed
  show ?thesis
    using assms(3) by (simp add: gameReducer_def endRound_Inr [OF ne] sc key del: scorePlayer_sel)
qed

theorem leaster_scoring_witness:
  "isLeaster leasterTie \<and> distinct (map pid (players leasterTie))
   \<and> map playerPoints (players leasterTie) = [11, 11, 4]
   \<and> (\<exists>s'. gameReducer testEnv leasterTie END_ROUND = Inr s' \<and> score (players s' ! 0) = 11)
   \<and> (\<exists>s'. gameReducer testEnv leasterTie END_ROUND = Inr s' \<and> score (players s' ! 1) = 0)"
proof -
  note f = leasterTie_facts
  have i0: "0 < length (players leasterTie)" and i1: "1 < length (players leasterTie)"
    by (simp_all add: f(3))
  have pts: "map playerPoints (players leasterTie) = [11, 11, 4]" by code_simp
  have all3: "(\<forall>j<3. P j) \<longleftrightarrow> P 0 \<and> P 1 \<and> P (2::nat)" for P
    by (auto simp: less_Suc_eq numeral_3_eq_3 numeral_2_eq_2)
  from leaster_scoring [OF f(1) f(2) i0, of testEnv]
  have a: "\<exists>s'. gameReducer testEnv leasterTie END_ROUND = Inr s' \<and> score (players s' ! 0) = 11"
    by (auto simp: f all3)
  from leaster_scoring [OF f(1) f(2) i1, of testEnv]
  have b: "\<exists>s'. gameReducer testEnv leasterTie END_ROUND = Inr s' \<and> score (players s' ! 1) = 0"
    by (auto simp: f all3)
  from f(1) f(2) pts a b show ?thesis by blast
qed

section \<open>Card power (C7)\<close>

text \<open>
  C7, as stated, fails: \<open>getCardPower\<close> is not injective over the deck. The ace of clubs and
  the ace of spades are two distinct cards of the deck and both have power 7, because the
  power of a plain card is read off its rank alone.
\<close>

theorem getCardPower_not_injective:
  "mkCard CLUBS ACE \<in> set (initializeDeck id) \<and> mkCard SPADES ACE \<in> set (initializeDeck id)
   \<and> mkCard CLUBS ACE \<noteq> mkCard SPADES ACE
   \<and> getCardPower (mkCard CLUBS ACE) = getCardPower (mkCard SPADES ACE)"
proof -
  have "mkCard CLUBS ACE \<in> set (initializeDeck id)" "mkCard SPADES ACE \<in> set (initializeDeck id)"
    unfolding set_initializeDeck in_buildDeck by blast+
  moreover have "mkCard CLUBS ACE \<noteq> mkCard SPADES ACE"
    by (simp add: mkCard_def)
  moreover have "getCardPower (mkCard CLUBS ACE) = getCardPower (mkCard SPADES ACE)"
    by (simp add: power_mkCard_eq isCardTrump_def)
  ultimately show ?thesis by blast
qed

text \<open>
  C7, amended: over the 32 cards of the deck (whatever the shuffle), two distinct cards have
  the same power exactly when both are plain (not trump) and have the same rank. So
  \<open>getCardPower\<close> is injective over the 14 trump cards and over the cards of any one suit,
  and a trump never shares its power with a plain card.
\<close>

theorem getCardPower_collisions:
  assumes "c1 \<in> set (initializeDeck rnd)" and "c2 \<in> set (initializeDeck rnd)" and "c1 \<noteq> c2"
  shows "getCardPower c1 = getCardPower c2 \<longleftrightarrow> \<not> isTrump c1 \<and> \<not> isTrump c2 \<and> rank c1 = rank c2"
proof -
  from assms(1,2) obtain s r s' r' where c: "c1 = mkCard s r" "c2 = mkCard s' r'"
    unfolding set_initializeDeck in_buildDeck by blast
  with assms(3) have "\<not> (s = s' \<and> r = r')" by blast
  then show ?thesis unfolding c power_mkCard_eq by auto
qed

theorem getCardPower_collisions_witness:
  "mkCard CLUBS QUEEN \<in> set (initializeDeck id) \<and> mkCard DIAMONDS ACE \<in> set (initializeDeck id)
   \<and> mkCard CLUBS QUEEN \<noteq> mkCard DIAMONDS ACE
   \<and> getCardPower (mkCard CLUBS QUEEN) \<noteq> getCardPower (mkCard DIAMONDS ACE)"
proof -
  have m: "mkCard CLUBS QUEEN \<in> set (initializeDeck id)"
      "mkCard DIAMONDS ACE \<in> set (initializeDeck id)"
    unfolding set_initializeDeck in_buildDeck by blast+
  have d: "mkCard CLUBS QUEEN \<noteq> mkCard DIAMONDS ACE"
    by (simp add: mkCard_def)
  from getCardPower_collisions [OF m d] m d show ?thesis
    by (simp add: isCardTrump_def)
qed

section \<open>The forced-trump branch (C8)\<close>

text \<open>
  C8, as stated, fails: \<open>START_GAME\<close> is accepted in every phase, and it empties the current
  trick but keeps the lead suit. At a three-player table \<open>ai-player-1\<close> picks, buries and
  leads the ten of clubs, which sets the lead suit; a new game is started before the trick
  is complete, and \<open>ai-player-1\<close> picks, buries and leads the seven of diamonds, a trump.
  Every action of this run is accepted. Now the trick was led with a trump and the lead
  suit is still clubs: for \<open>ai-player-2\<close>, who holds the ace of clubs and a trump, the
  follow-suit branch lets the ace of clubs pass, the forced-trump branch rejects it, and
  the play is refused.
\<close>

theorem forcedTrump_fires_after_restart:
  "runOk anyAction testEnv initialState restartRun
   \<and> (case dispatchAll testEnv initialState restartRun of
        Inl e \<Rightarrow> False
      | Inr s \<Rightarrow>
          phase s = PLAYING \<and> currentTurn s = ''ai-player-2''
          \<and> pid (players s ! 2) = ''ai-player-2''
          \<and> currentTrick s = [mkCard DIAMONDS SEVEN] \<and> isTrump (hd (currentTrick s))
          \<and> leadSuit s = Some CLUBS
          \<and> list_ex (\<lambda>c. suit c = CLUBS \<and> rank c = ACE) (cards (players s ! 2))
          \<and> list_ex isTrump (cards (players s ! 2))
          \<and> \<not> followSuitRejects (mkCard CLUBS ACE) (players s ! 2) (leadSuit s)
          \<and> forcedTrumpRejects (mkCard CLUBS ACE) (players s ! 2) (currentTrick s) (leadSuit s)
          \<and> \<not> isValidPlay (mkCard CLUBS ACE) (players s ! 2) (currentTrick s) (leadSuit s)
          \<and> gameReducer testEnv s (PLAY_CARD ''ai-player-2'' (Some (mkCard CLUBS ACE))) = Inr s)"
  by code_simp

text \<open>
  C8, amended: in every state reachable from the initial state by \<open>START_GAME\<close> dispatched
  while no lead suit is set and by the player actions (any of them, legal or not), a
  current trick led with a trump has no lead suit set; so the forced-trump branch of
  \<open>isValidPlay\<close>, which needs a lead suit and a trump as first card of the trick, rejects
  no card of no player. In these states no lead suit is set whenever no trick is in
  progress, and none is in progress between rounds (in phase \<open>GAME_OVER\<close> or \<open>SCORING\<close>),
  which is when the setup screen dispatches \<open>START_GAME\<close>.
\<close>

theorem forcedTrump_never_fires:
  assumes "reach startWithoutLead s"
  shows "(currentTrick s \<noteq> [] \<and> isTrump (hd (currentTrick s)) \<longrightarrow> leadSuit s = None)
         \<and> \<not> forcedTrumpRejects crd player (currentTrick s) (leadSuit s)
         \<and> (currentTrick s = [] \<longrightarrow> leadSuit s = None)
         \<and> (phase s = GAME_OVER \<or> phase s = SCORING \<longrightarrow> currentTrick s = [])"
  using reach_trickInv [OF assms]
  by (auto simp: trickInv_def forcedTrumpRejects_def split: list.splits if_splits)

theorem forcedTrump_never_fires_witness:
  "reach startWithoutLead (stateAfter trumpLedRun)
   \<and> currentTrick (stateAfter trumpLedRun) \<noteq> []
   \<and> isTrump (hd (currentTrick (stateAfter trumpLedRun)))
   \<and> list_ex isTrump (cards (players (stateAfter trumpLedRun) ! 2))
   \<and> \<not> isTrump (mkCard SPADES NINE)
   \<and> leadSuit (stateAfter trumpLedRun) = None
   \<and> \<not> forcedTrumpRejects (mkCard SPADES NINE) (players (stateAfter trumpLedRun) ! 2)
         (currentTrick (stateAfter trumpLedRun)) (leadSuit (stateAfter trumpLedRun))"
proof -
  note f = trumpLed_facts
  have r: "reach startWithoutLead (stateAfter trumpLedRun)"
    using f(1) by (rule reach_stateAfter)
  have n: "\<not> isTrump (mkCard SPADES NINE)" by (simp add: isCardTrump_def)
  from forcedTrump_never_fires [OF r, of "mkCard SPADES NINE" "players (stateAfter trumpLedRun) ! 2"]
    r f n show ?thesis by simp
qed

section \<open>Legal plays (C9)\<close>

text \<open>
  C9: a trump card is always a valid play, for every hand, every trick and every lead suit
  (set or unset), also when the hand holds plain cards of the lead suit. Both rejections
  of \<open>isValidPlay\<close> are guarded by \<open>!card.isTrump\<close>.
\<close>

theorem isValidPlay_trump:
  "isTrump crd \<Longrightarrow> isValidPlay crd player trick ls"
  by (cases ls; cases trick)
     (simp_all add: isValidPlay_def followSuitRejects_def forcedTrumpRejects_def)

theorem isValidPlay_trump_witness:
  "isTrump (mkCard DIAMONDS SEVEN)
   \<and> isValidPlay (mkCard DIAMONDS SEVEN)
       (hd (initPlayers (handleStartGame ''You'' 3))
          \<lparr>cards := [mkCard CLUBS ACE, mkCard DIAMONDS SEVEN]\<rparr>)
       [mkCard CLUBS KING] (Some CLUBS)"
proof -
  have t: "isTrump (mkCard DIAMONDS SEVEN)" by (simp add: isCardTrump_def)
  from isValidPlay_trump [OF t] t show ?thesis by blast
qed

section \<open>Trick winner (C1)\<close>

text \<open>
  C1 does not hold of the code. Three players, listed from the leader, play the seven, the
  ace and the eight of clubs, clubs led. The loop finds the winning card, the ace at index
  1, played by the second player of the list, \<open>ai-player-1\<close>. The function then adds the
  winning index to the index at which it finds that player, and returns the player at
  index 2, \<open>ai-player-2\<close>, who played the eight.
\<close>

theorem determineTrickWinner_returns_wrong_player:
  "trickLoop CLUBS [mkCard CLUBS ACE, mkCard CLUBS EIGHT] 1 (mkCard CLUBS SEVEN, 0)
     = (mkCard CLUBS ACE, 1)
   \<and> map pid (initPlayers (handleStartGame ''You'' 3))
     = [''human-player'', ''ai-player-1'', ''ai-player-2'']
   \<and> determineTrickWinner [mkCard CLUBS SEVEN, mkCard CLUBS ACE, mkCard CLUBS EIGHT] CLUBS
       (initPlayers (handleStartGame ''You'' 3)) = Inr ''ai-player-2''"
  by code_simp

end
